theory Spec2Isabelle
  imports Complex_Main "HOL-Library.Word" "HOL-Library.Code_Target_Nat"
begin

unbundle bit_operations_syntax

section \<open>Common conventions\<close>

text \<open>
  The sources are C++ templates over \<open>float\<close> positions. A coordinate is the real
  number the \<open>float\<close> denotes, and the arithmetic on coordinates rounds as the
  floating-point unit does (see below). Unsigned 64-bit values (\<open>size_t\<close>) are natural
  numbers with the wrap-around written out where the source can wrap.

  The sources throw no exception and check no index. Where an execution leaves the
  defined behaviour of C++ (an index outside a \<open>std::array\<close> or \<open>std::vector\<close>, a
  floating-point value converted to an integer type that cannot hold it), the model
  returns \<open>Inl\<close> of the kind of undefined behaviour reached; \<open>Inr\<close> is a normal return.
\<close>

datatype undefined_behaviour = ArrayIndexOutOfRange | FloatConversionOutOfRange

type_synonym Vector2f = "real \<times> real"

record Boid =
  position :: Vector2f

definition size_t_wrap :: "int \<Rightarrow> nat" where
  "size_t_wrap v = nat (v mod 2 ^ 64)"

text \<open>\<open>static_cast<size_t>(f)\<close>: truncation towards zero, undefined when the truncated
  value is not a \<open>size_t\<close>.\<close>

definition trunc_toward_zero :: "real \<Rightarrow> int" where
  "trunc_toward_zero r = (if 0 \<le> r then \<lfloor>r\<rfloor> else \<lceil>r\<rceil>)"

definition to_size_t :: "real \<Rightarrow> undefined_behaviour + nat" where
  "to_size_t r =
     (if 0 \<le> trunc_toward_zero r \<and> trunc_toward_zero r < 2 ^ 64 then Inr (nat (trunc_toward_zero r))
      else Inl FloatConversionOutOfRange)"

text \<open>\<open>std::clamp(v, lo, hi)\<close> on \<open>unsigned long\<close>.\<close>

definition clamp :: "nat \<Rightarrow> nat \<Rightarrow> nat \<Rightarrow> nat" where
  "clamp v lo hi = (if v < lo then lo else if hi < v then hi else v)"


section \<open>Floating-point arithmetic\<close>

text \<open>
  A \<open>float\<close> or \<open>double\<close> value is the real number it denotes. Every arithmetic
  operation of the sources on such values is the exact operation on reals followed by
  rounding to the nearest value of the format, ties to the even significand
  (IEEE 754 binary32 and binary64, each operation evaluated in the format of its
  operands). \<open>round_binary prec emin emax\<close> rounds to the format with \<open>prec\<close> significand
  bits and normal exponents from \<open>emin\<close> to \<open>emax\<close>; below \<open>2^emin\<close> the spacing is that
  of the subnormal numbers. Infinities and NaN are outside the model: a value beyond
  the largest finite one is rounded with the spacing of the largest exponent.

  The exponent of a positive number is found by doubling from 1 upwards or halving from
  1 downwards, at most \<open>emax\<close> or \<open>-emin\<close> times.
\<close>

primrec scan_up :: "nat \<Rightarrow> real \<Rightarrow> int \<Rightarrow> real \<Rightarrow> int" where
  "scan_up 0 x e p = e"
| "scan_up (Suc fuel) x e p = (if 2 * p \<le> x then scan_up fuel x (e + 1) (2 * p) else e)"

primrec scan_down :: "nat \<Rightarrow> real \<Rightarrow> int \<Rightarrow> real \<Rightarrow> int" where
  "scan_down 0 x e p = e"
| "scan_down (Suc fuel) x e p = (if p \<le> x then e else scan_down fuel x (e - 1) (p / 2))"

definition binary_exponent :: "int \<Rightarrow> int \<Rightarrow> real \<Rightarrow> int" where
  "binary_exponent emin emax x =
     (if 1 \<le> x then scan_up (nat emax) x 0 1 else scan_down (nat (- emin)) x 0 1)"

definition round_half_even :: "real \<Rightarrow> int" where
  "round_half_even q =
     (let f = \<lfloor>q\<rfloor> in
      if q - of_int f < 1 / 2 then f
      else if 1 / 2 < q - of_int f then f + 1
      else if even f then f else f + 1)"

text \<open>The spacing of the format at \<open>x\<close>, and the rounding.\<close>

definition ulp_of :: "nat \<Rightarrow> int \<Rightarrow> int \<Rightarrow> real \<Rightarrow> real" where
  "ulp_of prec emin emax x = 2 powi (binary_exponent emin emax \<bar>x\<bar> - int prec + 1)"

definition round_binary :: "nat \<Rightarrow> int \<Rightarrow> int \<Rightarrow> real \<Rightarrow> real" where
  "round_binary prec emin emax x =
     (if x = 0 then 0
      else of_int (round_half_even (x / ulp_of prec emin emax x)) * ulp_of prec emin emax x)"

definition to_float :: "real \<Rightarrow> real" where
  "to_float = round_binary 24 (- 126) 127"

definition to_double :: "real \<Rightarrow> real" where
  "to_double = round_binary 53 (- 1022) 1023"

section \<open>The bin lattice (\<open>main.cpp\<close>)\<close>

text \<open>The template parameters of \<open>BinLattice<WIDTH, HEIGHT, BINS, BIN_SIZE>\<close>.\<close>

record BinLatticeParams =
  WIDTH :: nat
  HEIGHT :: nat
  BINS :: nat
  BIN_SIZE :: nat

text \<open>
  A \<open>Boid*\<close> is an address; the memory it points into is a function from addresses to
  boids. A bin is the pair of its fixed array and its occupancy count, the lattice an
  array of arrays of bins.
\<close>

type_synonym boid_ptr = nat
type_synonym boid_memory = "boid_ptr \<Rightarrow> Boid"
type_synonym Bin = "boid_ptr list \<times> nat"
type_synonym Lattice = "Bin list list"

definition nullptr :: boid_ptr where
  "nullptr = 0"

definition MaxQuerySize :: "BinLatticeParams \<Rightarrow> nat" where
  "MaxQuerySize T = BIN_SIZE T * 9"

text \<open>The constructor: every bin filled with \<open>nullptr\<close>, every count 0.\<close>

definition BinLattice :: "BinLatticeParams \<Rightarrow> Lattice" where
  "BinLattice T = replicate (BINS T) (replicate (BINS T) (replicate (BIN_SIZE T) nullptr, 0))"

text \<open>
  \<open>static_cast<size_t>(p / (DIM / BINS))\<close>: the divisor is an integer quotient of the
  template parameters, converted to \<open>float\<close> for the division in \<open>float\<close>; a zero
  divisor makes the quotient infinite or NaN, whose conversion is undefined.
\<close>

definition cellIndex :: "nat \<Rightarrow> nat \<Rightarrow> real \<Rightarrow> undefined_behaviour + nat" where
  "cellIndex DIM N p =
     (if DIM div N = 0 then Inl FloatConversionOutOfRange
      else to_size_t (to_float (p / to_float (real (DIM div N)))))"

definition addBoid ::
  "BinLatticeParams \<Rightarrow> boid_memory \<Rightarrow> boid_ptr \<Rightarrow> Lattice \<Rightarrow> undefined_behaviour + Lattice" where
  "addBoid T mem boid lattice =
     (case cellIndex (WIDTH T) (BINS T) (fst (position (mem boid))) of
        Inl u \<Rightarrow> Inl u
      | Inr xIndex \<Rightarrow>
     (case cellIndex (HEIGHT T) (BINS T) (snd (position (mem boid))) of
        Inl u \<Rightarrow> Inl u
      | Inr yIndex \<Rightarrow>
          if xIndex < length lattice \<and> yIndex < length (lattice ! xIndex) then
            let bin = lattice ! xIndex ! yIndex in
            if snd bin < length (fst bin) then
              Inr (lattice[xIndex := (lattice ! xIndex)
                     [yIndex := ((fst bin)[snd bin := boid], snd bin + 1)]])
            else Inl ArrayIndexOutOfRange
          else Inl ArrayIndexOutOfRange))"

definition clear :: "Lattice \<Rightarrow> Lattice" where
  "clear lattice = map (map (\<lambda>bin. (fst bin, 0))) lattice"

text \<open>The loop \<open>for (auto& boid : boids) binLattice.addBoid(&boid)\<close> of \<open>main\<close>.\<close>

fun addBoids ::
  "BinLatticeParams \<Rightarrow> boid_memory \<Rightarrow> boid_ptr list \<Rightarrow> Lattice \<Rightarrow> undefined_behaviour + Lattice" where
  "addBoids T mem [] lattice = Inr lattice"
| "addBoids T mem (boid # boids) lattice =
     (case addBoid T mem boid lattice of
        Inl u \<Rightarrow> Inl u
      | Inr lattice' \<Rightarrow> addBoids T mem boids lattice')"

text \<open>
  The cells visited by the two nested loops over \<open>dx\<close> and \<open>dy\<close>, in loop order.
  \<open>xIndex + dx\<close> is computed in \<open>size_t\<close>, so it wraps; \<open>BINS - 1\<close> likewise.
\<close>

definition neighbourCells :: "BinLatticeParams \<Rightarrow> nat \<Rightarrow> nat \<Rightarrow> (nat \<times> nat) list" where
  "neighbourCells T xIndex yIndex =
     concat (map (\<lambda>dx. map (\<lambda>dy.
        (clamp (size_t_wrap (int xIndex + dx)) 0 (size_t_wrap (int (BINS T) - 1)),
         clamp (size_t_wrap (int yIndex + dy)) 0 (size_t_wrap (int (BINS T) - 1))))
        [-1, 0, 1]) [-1, 0, 1])"

text \<open>
  The innermost loop over one bin, \<open>i\<close> running through \<open>[0..<bin.second]\<close>. The result
  array is modelled by its first \<open>count\<close> entries; a write at \<open>count\<close> needs
  \<open>count < MaxQuerySize\<close>. The two differences, the two squares and their sum are
  \<open>float\<close> operations, each rounded.
\<close>

fun scanBin ::
  "boid_memory \<Rightarrow> Vector2f \<Rightarrow> real \<Rightarrow> nat \<Rightarrow> boid_ptr list \<Rightarrow> nat list \<Rightarrow> boid_ptr list
     \<Rightarrow> undefined_behaviour + boid_ptr list" where
  "scanBin mem pos radiusSquared cap first [] result = Inr result"
| "scanBin mem pos radiusSquared cap first (i # is) result =
     (if i < length first then
        let distX = to_float (fst (position (mem (first ! i))) - fst pos);
            distY = to_float (snd (position (mem (first ! i))) - snd pos)
        in if to_float (to_float (distX * distX) + to_float (distY * distY)) < radiusSquared then
             (if length result < cap
              then scanBin mem pos radiusSquared cap first is (result @ [first ! i])
              else Inl ArrayIndexOutOfRange)
           else scanBin mem pos radiusSquared cap first is result
      else Inl ArrayIndexOutOfRange)"

fun scanCells ::
  "boid_memory \<Rightarrow> Vector2f \<Rightarrow> real \<Rightarrow> nat \<Rightarrow> Lattice \<Rightarrow> (nat \<times> nat) list \<Rightarrow> boid_ptr list
     \<Rightarrow> undefined_behaviour + boid_ptr list" where
  "scanCells mem pos radiusSquared cap lattice [] result = Inr result"
| "scanCells mem pos radiusSquared cap lattice ((newX, newY) # cells) result =
     (if newX < length lattice \<and> newY < length (lattice ! newX) then
        (case scanBin mem pos radiusSquared cap (fst (lattice ! newX ! newY))
                [0..<snd (lattice ! newX ! newY)] result of
           Inl u \<Rightarrow> Inl u
         | Inr result' \<Rightarrow> scanCells mem pos radiusSquared cap lattice cells result')
      else Inl ArrayIndexOutOfRange)"

definition query ::
  "BinLatticeParams \<Rightarrow> boid_memory \<Rightarrow> Lattice \<Rightarrow> Vector2f \<Rightarrow> real
     \<Rightarrow> undefined_behaviour + boid_ptr list" where
  "query T mem lattice pos radius =
     (case cellIndex (WIDTH T) (BINS T) (fst pos) of
        Inl u \<Rightarrow> Inl u
      | Inr xIndex \<Rightarrow>
     (case cellIndex (HEIGHT T) (BINS T) (snd pos) of
        Inl u \<Rightarrow> Inl u
      | Inr yIndex \<Rightarrow>
          scanCells mem pos (to_float (radius * radius)) (MaxQuerySize T) lattice
            (neighbourCells T xIndex yIndex) []))"

text \<open>One frame of \<open>main\<close>: clear the lattice, add every boid, query at one position.\<close>

definition frame ::
  "BinLatticeParams \<Rightarrow> boid_memory \<Rightarrow> boid_ptr list \<Rightarrow> Lattice \<Rightarrow> Vector2f \<Rightarrow> real
     \<Rightarrow> undefined_behaviour + boid_ptr list" where
  "frame T mem boids lattice pos radius =
     (case addBoids T mem boids (clear lattice) of
        Inl u \<Rightarrow> Inl u
      | Inr lattice' \<Rightarrow> query T mem lattice' pos radius)"

text \<open>The instantiation of \<open>main\<close>: a 1000 by 1000 window, 20 by 20 bins of 100 boids.\<close>

definition mainParams :: BinLatticeParams where
  "mainParams = \<lparr>WIDTH = 1000, HEIGHT = 1000, BINS = 20, BIN_SIZE = 100\<rparr>"

subsection \<open>Notions used to state the properties of the lattice\<close>




text \<open>The occupied part of a bin.\<close>

definition binContents :: "Bin \<Rightarrow> boid_ptr list" where
  "binContents bin = take (snd bin) (fst bin)"

text \<open>The shape the constructor builds: \<open>BINS\<close> rows of \<open>BINS\<close> bins of \<open>BIN_SIZE\<close> slots,
  no count above \<open>BIN_SIZE\<close>.\<close>

definition wf_lattice :: "BinLatticeParams \<Rightarrow> Lattice \<Rightarrow> bool" where
  "wf_lattice T lattice \<longleftrightarrow>
     length lattice = BINS T \<and>
     (\<forall>x < BINS T. length (lattice ! x) = BINS T \<and>
        (\<forall>y < BINS T. length (fst (lattice ! x ! y)) = BIN_SIZE T \<and>
                        snd (lattice ! x ! y) \<le> BIN_SIZE T))"

text \<open>The boid's position converts to the cell \<open>(x, y)\<close>.\<close>

definition inCell :: "BinLatticeParams \<Rightarrow> boid_memory \<Rightarrow> nat \<Rightarrow> nat \<Rightarrow> boid_ptr \<Rightarrow> bool" where
  "inCell T mem x y boid \<longleftrightarrow>
     cellIndex (WIDTH T) (BINS T) (fst (position (mem boid))) = Inr x \<and>
     cellIndex (HEIGHT T) (BINS T) (snd (position (mem boid))) = Inr y"

text \<open>A memory for the examples: boid 1 in the middle of the window, boid 2 in the last
  column, boid 3 in the last column of the first row, boid 4 to the right of the window,
  every other boid in the first cell.\<close>

definition exampleMemory :: boid_memory where
  "exampleMemory p =
     (if p = 1 then \<lparr>position = (500, 500)\<rparr>
      else if p = 2 then \<lparr>position = (975, 500)\<rparr>
      else if p = 3 then \<lparr>position = (975, 10)\<rparr>
      else if p = 4 then \<lparr>position = (1200, 500)\<rparr>
      else \<lparr>position = (25, 25)\<rparr>)"


section \<open>Geometry and elements (\<open>box.hpp\<close>, \<open>body.hpp\<close>)\<close>

text \<open>\<open>Box<float>\<close>: the four members \<open>left\<close>, \<open>top\<close>, \<open>width\<close>, \<open>height\<close>. The selectors
  carry the prefix \<open>box_\<close>, since \<open>top\<close> is a constant of HOL.\<close>

record Boxf =
  box_left :: real
  box_top :: real
  box_width :: real
  box_height :: real

definition Box :: "real \<Rightarrow> real \<Rightarrow> real \<Rightarrow> real \<Rightarrow> Boxf" where
  "Box rectLeft rectTop rectWidth rectHeight =
     \<lparr>box_left = rectLeft, box_top = rectTop, box_width = rectWidth, box_height = rectHeight\<rparr>"

text \<open>
  Modelled from the spec: \<open>Box::merge\<close>, which \<open>updateBounds\<close> calls, is not among the
  members of \<open>Box\<close> in \<open>box.hpp\<close>. The specification calls it the
  bounding-union: the smallest box that contains the box and the point.
\<close>

definition merge :: "Boxf \<Rightarrow> Vector2f \<Rightarrow> Boxf" where
  "merge b point =
     (let l = min (box_left b) (fst point);
          t = min (box_top b) (snd point);
          r = max (box_left b + box_width b) (fst point);
          d = max (box_top b + box_height b) (snd point)
      in Box l t (r - l) (d - t))"

text \<open>\<open>Body\<close>: a position, a velocity and a mass. It has the member \<open>position\<close> that the
  containers ask of their element type, so its record extends the one of \<open>Boid\<close>, which
  has that member only.\<close>

record Body = Boid +
  velocity :: Vector2f
  mass :: real

text \<open>The constructor with its default arguments, \<open>Body(position)\<close>.\<close>

definition new_Body :: "Vector2f \<Rightarrow> Body" where
  "new_Body p = \<lparr>position = p, velocity = (0, 0), mass = 1\<rparr>"

text \<open>\<open>std::numeric_limits<size_type>::max()\<close>, the default of \<open>maxClosest\<close>.\<close>

definition max_size :: nat where
  "max_size = 2 ^ 64 - 1"

text \<open>
  \<open>Vector2<float>::lengthSquared\<close>: the coordinates are widened to \<open>double\<close>, squared and
  added in \<open>double\<close>, and the sum is converted to \<open>float\<close>.
\<close>

definition lengthSquared :: "Vector2f \<Rightarrow> real" where
  "lengthSquared v =
     to_float (to_double (to_double (fst v * fst v) + to_double (snd v * snd v)))"

text \<open>
  The predicate objects \<open>Distance\<close> and \<open>PassThrough\<close>. In \<open>Distance\<close> the difference
  \<open>el.position - search\<close> is taken in \<open>float\<close>, coordinate by coordinate, and
  \<open>radius * radius\<close> is a \<open>float\<close> product.
\<close>

definition Distance :: "Vector2f \<Rightarrow> real \<Rightarrow> Body \<Rightarrow> bool" where
  "Distance search radius el \<longleftrightarrow>
     lengthSquared (to_float (fst (position el) - fst search),
                    to_float (snd (position el) - snd search)) < to_float (radius * radius)"

definition PassThrough :: "Body \<Rightarrow> bool" where
  "PassThrough el \<longleftrightarrow> True"


section \<open>The linear collection (\<open>Collection\<close> in \<open>spatial.hpp\<close>)\<close>

record Collection =
  box :: Boxf
  elements :: "Body list"

definition new_Collection :: Collection where
  "new_Collection = \<lparr>box = Box 0 0 0 0, elements = []\<rparr>"

definition Collection_insert :: "Body \<Rightarrow> Collection \<Rightarrow> Collection" where
  "Collection_insert data c =
     c\<lparr>elements := elements c @ [data], box := merge (box c) (position data)\<rparr>"

definition Collection_clear :: "Collection \<Rightarrow> Collection" where
  "Collection_clear c = c\<lparr>elements := []\<rparr>"

definition Collection_bounds :: "Collection \<Rightarrow> Boxf" where
  "Collection_bounds c = box c"

text \<open>The loop of \<open>Collection::query\<close>: the counter is tested and incremented only for an
  element that satisfies the predicate; \<open>break\<close> returns what has been collected.\<close>

fun Collection_query_loop ::
  "(Body \<Rightarrow> bool) \<Rightarrow> nat \<Rightarrow> Body list \<Rightarrow> nat \<Rightarrow> Body list \<Rightarrow> Body list" where
  "Collection_query_loop pred maxClosest [] count result = result"
| "Collection_query_loop pred maxClosest (element # rest) count result =
     (if pred element then
        (if count \<ge> maxClosest then result
         else Collection_query_loop pred maxClosest rest (count + 1) (result @ [element]))
      else Collection_query_loop pred maxClosest rest count result)"

definition Collection_query :: "Collection \<Rightarrow> (Body \<Rightarrow> bool) \<Rightarrow> nat \<Rightarrow> Body list" where
  "Collection_query c pred maxClosest = Collection_query_loop pred maxClosest (elements c) 0 []"


section \<open>The tree (\<open>RTree\<close> in \<open>spatial.hpp\<close>)\<close>

text \<open>
  \<open>RTree\<close> wraps the R-tree of the Boost library, which is not part of the sources. Of
  the tree only the values inserted into it matter here, so it is modelled by their list.
\<close>

type_synonym RTree = "Body list"

definition new_RTree :: RTree where
  "new_RTree = []"

definition RTree_insert :: "Body \<Rightarrow> RTree \<Rightarrow> RTree" where
  "RTree_insert data rtree = rtree @ [data]"

definition RTree_bounds :: "RTree \<Rightarrow> Boxf" where
  "RTree_bounds rtree = Box 0 0 0 0"

text \<open>
  The exact bounding box in the words of the specification: the smallest axis-aligned
  box that contains all the given points (of a non-empty list).
\<close>

definition bounding_box :: "Vector2f list \<Rightarrow> Boxf" where
  "bounding_box points =
     Box (Min (set (map fst points))) (Min (set (map snd points)))
         (Max (set (map fst points)) - Min (set (map fst points)))
         (Max (set (map snd points)) - Min (set (map snd points)))"


section \<open>The spatial hash (\<open>SpatialHashing\<close> in \<open>spatial.hpp\<close>)\<close>

text \<open>
  \<open>SpatialHashing\<close> repeats the members \<open>box\<close> and \<open>elements\<close> of \<open>Collection\<close>, and the
  bodies of \<open>insert\<close>, \<open>clear\<close> and \<open>bounds\<close>; its record extends the one of \<open>Collection\<close>
  by the members \<open>shuffler\<close>, \<open>hashtable\<close> and \<open>pivots\<close>. The members \<open>cellSize\<close> and
  \<open>pivotTableSize\<close> never change after their initialisers.
\<close>

record SpatialHashing = Collection +
  shuffler :: "nat list"
  hashtable :: "nat list"
  pivots :: "nat list"

definition cellSize :: nat where
  "cellSize = 50"

definition pivotTableSize :: nat where
  "pivotTableSize = 1000"

definition new_SpatialHashing :: "nat \<Rightarrow> nat \<Rightarrow> SpatialHashing" where
  "new_SpatialHashing w h =
     \<lparr>box = Box 0 0 (real w) (real h), elements = [], shuffler = [], hashtable = [], pivots = []\<rparr>"

definition SpatialHashing_insert :: "Body \<Rightarrow> SpatialHashing \<Rightarrow> SpatialHashing" where
  "SpatialHashing_insert data s =
     s\<lparr>elements := elements s @ [data], box := merge (box s) (position data)\<rparr>"

definition SpatialHashing_clear :: "SpatialHashing \<Rightarrow> SpatialHashing" where
  "SpatialHashing_clear s = s\<lparr>elements := []\<rparr>"

definition SpatialHashing_bounds :: "SpatialHashing \<Rightarrow> Boxf" where
  "SpatialHashing_bounds s = box s"

text \<open>
  The conversion of an integral \<open>float\<close> to \<open>int\<close>. Outside the range of \<open>int\<close> the
  conversion is undefined in C++; the model takes what the conversion instruction of
  the x86 delivers there, the smallest \<open>int\<close>. The properties of \<open>update\<close> and \<open>query\<close>
  proved below use of the cell of a position only that its bucket index is below
  \<open>pivotTableSize\<close>, which holds for every value of the conversion.
\<close>

definition to_int :: "int \<Rightarrow> int" where
  "to_int v = (if - (2 ^ 31) \<le> v \<and> v < 2 ^ 31 then v else - (2 ^ 31))"

text \<open>\<open>getCellCoordinates\<close>: each coordinate is divided by \<open>cellSize\<close> in \<open>float\<close>, and the
  floor of the quotient is converted to \<open>int\<close>.\<close>

definition getCellCoordinates :: "Vector2f \<Rightarrow> int \<times> int" where
  "getCellCoordinates pos =
     (to_int \<lfloor>to_float (fst pos / to_float (real cellSize))\<rfloor>,
      to_int \<lfloor>to_float (snd pos / to_float (real cellSize))\<rfloor>)"

text \<open>
  \<open>hash\<close>: each product is computed in \<open>int\<close> and converted to \<open>uint\<close>, the two are
  combined by exclusive or. The products are taken modulo \<open>2^32\<close>, as the compiled code
  computes them; no cell of the 1000 by 1000 window comes near that bound.
\<close>

definition hash :: "int \<times> int \<Rightarrow> nat" where
  "hash coord =
     unat ((word_of_int (fst coord * 15823) :: 32 word) XOR word_of_int (snd coord * 9737333))"

definition getCellIndex :: "int \<times> int \<Rightarrow> nat" where
  "getCellIndex coord = hash coord mod pivotTableSize"

text \<open>The bucket of an element: \<open>getCellIndex(coord + nh)\<close> with \<open>nh = int2(0, 0)\<close> in
  \<open>update\<close>, \<open>getCellIndex(getCellCoordinates(element.position))\<close> in \<open>query\<close>.\<close>

definition bucket_of :: "Vector2f \<Rightarrow> nat" where
  "bucket_of pos =
     (let coord = getCellCoordinates pos;
          nh = (0, 0)
      in getCellIndex (fst coord + fst nh, snd coord + snd nh))"

text \<open>First pass of \<open>update\<close>: \<open>pivotTableSize\<close> zeros, then one increment per element.
  The index is a remainder modulo \<open>pivotTableSize\<close>, the size of the vector.\<close>

definition count_usage :: "Body list \<Rightarrow> nat list" where
  "count_usage els =
     fold (\<lambda>element pvs.
             pvs[bucket_of (position element) := pvs ! bucket_of (position element) + 1])
          els (replicate pivotTableSize 0)"

text \<open>Second loop: every count is replaced by the running sum of the counts before it.\<close>

fun start_indices :: "nat list \<Rightarrow> nat \<Rightarrow> nat list" where
  "start_indices [] start = []"
| "start_indices (usage # pvs) start = start # start_indices pvs (start + usage)"

text \<open>
  Filling the hash table: the element number \<open>i\<close> is written at the cursor of its bucket,
  which then advances. The write \<open>hashtable[index] = i\<close> needs \<open>index\<close> below the size
  of \<open>hashtable\<close>.
\<close>

fun fill_hashtable ::
  "Body list \<Rightarrow> nat \<Rightarrow> nat list \<Rightarrow> nat list \<Rightarrow> undefined_behaviour + (nat list \<times> nat list)" where
  "fill_hashtable [] i pvs table = Inr (pvs, table)"
| "fill_hashtable (element # rest) i pvs table =
     (let index = pvs ! bucket_of (position element) in
      if index < length table then
        fill_hashtable rest (i + 1)
          (pvs[bucket_of (position element) := index + 1]) (table[index := i])
      else Inl ArrayIndexOutOfRange)"

text \<open>The last loop, \<open>i\<close> running down from \<open>pivots.size() - 1\<close> to 1.\<close>

fun reposition :: "nat list \<Rightarrow> nat \<Rightarrow> nat list" where
  "reposition pvs 0 = pvs"
| "reposition pvs (Suc i) = reposition (pvs[Suc i := pvs ! i]) i"

text \<open>
  \<open>update\<close>. The argument \<open>shuffled\<close> is the outcome of \<open>std::shuffle\<close> on the identity
  permutation, drawn from the random device; it is stored in \<open>shuffler\<close> and not read
  again.
\<close>

definition SpatialHashing_update ::
  "nat list \<Rightarrow> SpatialHashing \<Rightarrow> undefined_behaviour + SpatialHashing" where
  "SpatialHashing_update shuffled s =
     (let counts = count_usage (elements s);
          starts = start_indices counts 0
      in case fill_hashtable (elements s) 0 starts (replicate (length (elements s)) 0) of
           Inl u \<Rightarrow> Inl u
         | Inr (ends, table) \<Rightarrow>
             let pushed = ends @ [last ends];
                 moved = (reposition pushed (length pushed - 1))[0 := 0]
             in Inr (s\<lparr>shuffler := shuffled, hashtable := table, pivots := moved\<rparr>))"

text \<open>
  The loop of \<open>SpatialHashing::query\<close>, \<open>i\<close> running through \<open>[start..<end]\<close>: the counter
  is tested and incremented for every entry, before the predicate is applied.
\<close>

fun SpatialHashing_query_loop ::
  "Body list \<Rightarrow> nat list \<Rightarrow> (Body \<Rightarrow> bool) \<Rightarrow> nat \<Rightarrow> nat list \<Rightarrow> nat \<Rightarrow> Body list
     \<Rightarrow> undefined_behaviour + Body list" where
  "SpatialHashing_query_loop els table pred maxClosest [] count result = Inr result"
| "SpatialHashing_query_loop els table pred maxClosest (i # is) count result =
     (if count \<ge> maxClosest then Inr result
      else if i < length table \<and> table ! i < length els then
        SpatialHashing_query_loop els table pred maxClosest is (count + 1)
          (if pred (els ! (table ! i)) then result @ [els ! (table ! i)] else result)
      else Inl ArrayIndexOutOfRange)"

definition SpatialHashing_query ::
  "SpatialHashing \<Rightarrow> Body \<Rightarrow> (Body \<Rightarrow> bool) \<Rightarrow> nat \<Rightarrow> undefined_behaviour + Body list" where
  "SpatialHashing_query s element pred maxClosest =
     (let pivot_index = bucket_of (position element) in
      if pivot_index < length (pivots s) \<and> pivot_index + 1 < length (pivots s) then
        let start = pivots s ! pivot_index;
            finish = pivots s ! (pivot_index + 1)
        in SpatialHashing_query_loop (elements s) (hashtable s) pred maxClosest [start..<finish] 0 []
      else Inl ArrayIndexOutOfRange)"

subsection \<open>Notions used to state the properties of the spatial hash\<close>

text \<open>The entries of bucket \<open>b\<close>: the elements the hash table names in
  \<open>[pivots[b], pivots[b + 1])\<close>.\<close>

definition bucket :: "SpatialHashing \<Rightarrow> nat \<Rightarrow> Body list" where
  "bucket s b = map (\<lambda>i. elements s ! (hashtable s ! i)) [pivots s ! b..<pivots s ! (b + 1)]"

text \<open>How many elements fall into bucket \<open>b\<close>, and how many into the buckets before it.\<close>

definition bucket_count :: "Body list \<Rightarrow> nat \<Rightarrow> nat" where
  "bucket_count els b = length (filter (\<lambda>e. bucket_of (position e) = b) els)"

definition bucket_start :: "Body list \<Rightarrow> nat \<Rightarrow> nat" where
  "bucket_start els b = length (filter (\<lambda>e. bucket_of (position e) < b) els)"

text \<open>The slot of the hash table that receives element number \<open>j\<close>: the start of its
  bucket plus the number of earlier elements of the same bucket.\<close>

definition slot :: "Body list \<Rightarrow> nat \<Rightarrow> nat" where
  "slot els j =
     bucket_start els (bucket_of (position (els ! j))) +
     bucket_count (take j els) (bucket_of (position (els ! j)))"

text \<open>Bodies for the examples: \<open>exA\<close> and \<open>exD\<close> lie in cell \<open>(0, 10)\<close>, \<open>exB\<close> in cell
  \<open>(5, 5)\<close>, which hashes to the same bucket 330, and \<open>exC\<close> in cell \<open>(1, 0)\<close>, bucket 823.\<close>

definition exA :: Body where
  "exA = new_Body (25, 525)"

definition exB :: Body where
  "exB = new_Body (275, 275)"

definition exC :: Body where
  "exC = new_Body (75, 25)"

definition exD :: Body where
  "exD = new_Body (30, 530)"

text \<open>Two bodies in the colliding cells \<open>(0, 10)\<close> and \<open>(5, 5)\<close> whose difference in \<open>x\<close>
  is not a \<open>float\<close>, and a \<open>float\<close> radius just below their distance.\<close>

definition exE :: Body where
  "exE = new_Body (23 / 65536, 525)"


text \<open>The spatial hash of \<open>main\<close> after the insertion of the given bodies.\<close>

definition exampleHash :: "Body list \<Rightarrow> SpatialHashing" where
  "exampleHash bodies = fold SpatialHashing_insert bodies (new_SpatialHashing 1000 1000)"


section \<open>Properties of the rounding\<close>

lemma scan_up_spec:
  "p = 2 powi e \<Longrightarrow> p \<le> x \<Longrightarrow>
   e \<le> scan_up fuel x e p \<and> scan_up fuel x e p \<le> e + int fuel \<and>
   2 powi (scan_up fuel x e p) \<le> x \<and>
   (scan_up fuel x e p < e + int fuel \<longrightarrow> x < 2 powi (scan_up fuel x e p + 1))"
proof (induction fuel arbitrary: e p)
  case 0
  then show ?case by simp
next
  case (Suc fuel)
  have double: "2 * p = 2 powi (e + 1)"
    using Suc.prems(1) by (simp add: power_int_add)
  show ?case
  proof (cases "2 * p \<le> x")
    case True
    from Suc.IH[OF double True] show ?thesis using True by auto
  next
    case False
    then show ?thesis using Suc.prems double by auto
  qed
qed

lemma scan_down_spec:
  "p = 2 powi e \<Longrightarrow> x < 2 * p \<Longrightarrow>
   e - int fuel \<le> scan_down fuel x e p \<and> scan_down fuel x e p \<le> e \<and>
   x < 2 powi (scan_down fuel x e p + 1) \<and>
   (e - int fuel < scan_down fuel x e p \<longrightarrow> 2 powi (scan_down fuel x e p) \<le> x)"
proof (induction fuel arbitrary: e p)
  case 0
  then show ?case by (simp add: power_int_add)
next
  case (Suc fuel)
  have half: "p / 2 = 2 powi (e - 1)"
    using Suc.prems(1) by (simp add: power_int_diff)
  show ?case
  proof (cases "p \<le> x")
    case True
    then show ?thesis using Suc.prems by (simp add: power_int_add)
  next
    case False
    then have "x < 2 * (p / 2)" by simp
    from Suc.IH[OF half this] show ?thesis using False by auto
  qed
qed

lemma binary_exponent_spec:
  assumes "0 < x" "emin \<le> 0" "0 \<le> emax"
  shows "emin \<le> binary_exponent emin emax x" "binary_exponent emin emax x \<le> emax"
    and "2 powi emin \<le> x \<Longrightarrow> 2 powi (binary_exponent emin emax x) \<le> x"
    and "x < 2 powi (emax + 1) \<Longrightarrow> x < 2 powi (binary_exponent emin emax x + 1)"
    and "1 \<le> x \<Longrightarrow> 0 \<le> binary_exponent emin emax x"
proof -
  let ?r = "binary_exponent emin emax x"
  have up: "0 \<le> ?r \<and> ?r \<le> emax \<and> 2 powi ?r \<le> x \<and> (?r < emax \<longrightarrow> x < 2 powi (?r + 1))"
    if "1 \<le> x"
    using scan_up_spec[of 1 0 x "nat emax"] that assms(3) by (simp add: binary_exponent_def)
  have down: "emin \<le> ?r \<and> ?r \<le> 0 \<and> x < 2 powi (?r + 1) \<and> (emin < ?r \<longrightarrow> 2 powi ?r \<le> x)"
    if "\<not> 1 \<le> x"
    using scan_down_spec[of 1 0 x "nat (- emin)"] that assms(2) by (simp add: binary_exponent_def)
  show "emin \<le> ?r" using up down assms(2) by (cases "1 \<le> x") auto
  show "?r \<le> emax" using up down assms(3) by (cases "1 \<le> x") auto
  show "2 powi ?r \<le> x" if "2 powi emin \<le> x"
    using up down that by (cases "1 \<le> x"; cases "emin < ?r") auto
  show "x < 2 powi (?r + 1)" if "x < 2 powi (emax + 1)"
    using up down that by (cases "1 \<le> x"; cases "?r < emax") auto
  show "0 \<le> ?r" if "1 \<le> x" using up that by simp
qed

lemma round_half_even_int: "round_half_even (of_int k) = k"
  by (simp add: round_half_even_def)

lemma round_half_even_near: "\<bar>of_int (round_half_even q) - q\<bar> \<le> 1 / 2"
  unfolding round_half_even_def Let_def by (auto split: if_splits)


lemma round_binary_ulp:
  "x \<noteq> 0 \<Longrightarrow> round_binary prec emin emax x =
     of_int (round_half_even (x / ulp_of prec emin emax x)) * ulp_of prec emin emax x"
  by (simp add: round_binary_def)

lemma ulp_of_pos: "0 < ulp_of prec emin emax x"
  by (simp add: ulp_of_def)

lemma round_binary_multiple:
  assumes "x = of_int k * ulp_of prec emin emax x"
  shows "round_binary prec emin emax x = x"
proof (cases "x = 0")
  case True
  then show ?thesis by (simp add: round_binary_def)
next
  case False
  have "x / ulp_of prec emin emax x = of_int k"
    using assms ulp_of_pos[of prec emin emax x]
    by (metis nonzero_eq_divide_eq less_irrefl)
  then show ?thesis
    using assms by (simp add: round_binary_ulp[OF False] round_half_even_int)
qed

lemma round_binary_near:
  "\<bar>round_binary prec emin emax x - x\<bar> \<le> ulp_of prec emin emax x / 2"
proof (cases "x = 0")
  case True
  then show ?thesis using ulp_of_pos[of prec emin emax x] by (simp add: round_binary_def)
next
  case False
  let ?u = "ulp_of prec emin emax x"
  have u: "0 < ?u" by (rule ulp_of_pos)
  have "of_int (round_half_even (x / ?u)) * ?u - x =
        (of_int (round_half_even (x / ?u)) - x / ?u) * ?u"
    using u by (simp add: field_simps)
  then have "\<bar>of_int (round_half_even (x / ?u)) * ?u - x\<bar> =
        \<bar>of_int (round_half_even (x / ?u)) - x / ?u\<bar> * ?u"
    using u by (simp add: abs_mult)
  also have "\<dots> \<le> 1 / 2 * ?u"
    using round_half_even_near[of "x / ?u"] u by (intro mult_right_mono) simp_all
  finally show ?thesis by (simp add: round_binary_ulp[OF False])
qed


lemma round_binary_int:
  assumes "emin \<le> 0" "int prec - 1 \<le> emax" "0 < prec" "\<bar>n\<bar> < 2 ^ prec"
  shows "round_binary prec emin emax (of_int n) = of_int n"
proof (cases "n = 0")
  case True
  then show ?thesis by (simp add: round_binary_def)
next
  case False
  let ?x = "\<bar>of_int n :: real\<bar>"
  let ?r = "binary_exponent emin emax ?x"
  have one: "1 \<le> ?x" using False by (simp flip: of_int_abs)
  have pos: "0 < ?x" using one by linarith
  have emax: "0 \<le> emax" using assms(2,3) by linarith
  have "2 powi emin \<le> (1::real)"
    using power_int_increasing[of emin 0 "2::real"] assms(1) by simp
  then have low: "2 powi emin \<le> ?x" using one by linarith
  have r0: "0 \<le> ?r" using binary_exponent_spec(5)[OF pos assms(1) emax one] .
  have "2 powi ?r \<le> ?x" using binary_exponent_spec(3)[OF pos assms(1) emax low] .
  also have "?x < 2 ^ prec"
    using assms(4) by (metis of_int_abs of_int_less_numeral_power_cancel_iff)
  finally have "(2::real) powi ?r < 2 powi int prec" by simp
  then have "?r < int prec" by (rule power_int_le_imp_less_exp[rotated]) simp_all
  then obtain d :: nat where d: "int d = int prec - 1 - ?r"
    by (metis diff_ge_0_iff_ge nonneg_int_cases zle_diff1_eq)
  have "?r - int prec + 1 = - int d" using d by linarith
  then have "ulp_of prec emin emax (of_int n) = 2 powi (- int d)"
    by (simp only: ulp_of_def)
  also have "\<dots> = 1 / 2 ^ d" by (simp add: power_int_minus_divide)
  finally have ulp: "ulp_of prec emin emax (of_int n) = 1 / 2 ^ d" .
  have "(of_int n :: real) = of_int (n * 2 ^ d) * ulp_of prec emin emax (of_int n)"
    by (simp add: ulp)
  then show ?thesis by (rule round_binary_multiple)
qed

lemma round_binary_relative:
  assumes "emin \<le> 0" "0 \<le> emax" "2 powi emin \<le> \<bar>x\<bar>"
  shows "\<bar>round_binary prec emin emax x - x\<bar> \<le> \<bar>x\<bar> / 2 ^ prec"
proof -
  let ?r = "binary_exponent emin emax \<bar>x\<bar>"
  have pos: "0 < \<bar>x\<bar>"
    using assms(3) by (smt (verit) zero_less_power_int)
  have r: "2 powi ?r \<le> \<bar>x\<bar>" using binary_exponent_spec(3)[OF pos assms(1,2) assms(3)] .
  have "ulp_of prec emin emax x / 2 = 2 powi ?r / 2 ^ prec"
    by (simp add: ulp_of_def power_int_diff power_int_add)
  also have "\<dots> \<le> \<bar>x\<bar> / 2 ^ prec"
    using r by (simp add: divide_right_mono)
  finally show ?thesis using round_binary_near[of prec emin emax x] by linarith
qed

lemma to_float_int: "\<bar>n\<bar> < 2 ^ 24 \<Longrightarrow> to_float (of_int n) = of_int n"
  unfolding to_float_def by (rule round_binary_int) simp_all


lemma to_float_nat: "n < 2 ^ 24 \<Longrightarrow> to_float (real n) = real n"
  using to_float_int[of "int n"] by simp

lemma to_float_relative: "1 / 2 ^ 126 \<le> \<bar>x\<bar> \<Longrightarrow> \<bar>to_float x - x\<bar> \<le> \<bar>x\<bar> / 2 ^ 24"
  unfolding to_float_def
  by (rule round_binary_relative) (simp_all add: power_int_minus_divide)

lemma to_float_zero: "to_float 0 = 0"
  by (simp add: to_float_def round_binary_def)

lemma to_float_div_floor:
  assumes n: "n < 2 ^ 24" and c: "0 < c" and c24: "c < 2 ^ 24"
  shows "\<lfloor>to_float (real n / real c)\<rfloor> = int (n div c)"
proof (cases "n mod c = 0")
  case True
  then have "real n / real c = real (n div c)"
    using c by (simp add: real_of_nat_div dvd_eq_mod_eq_0)
  moreover have "n div c < 2 ^ 24"
    using n by (rule le_less_trans[OF div_le_dividend])
  ultimately show ?thesis by (simp add: to_float_nat)
next
  case False
  define k where "k = n div c"
  define r where "r = n mod c"
  define q where "q = real n / real c"
  have nk: "n = k * c + r" by (simp add: k_def r_def)
  have r: "1 \<le> r" "r + 1 \<le> c"
    using False c by (simp_all add: r_def Suc_leI)
  have cpos: "0 < real c" using c by simp
  have q: "q = real k + real r / real c"
    using c by (simp add: q_def nk add_divide_distrib)
  have lo: "real k + 1 / real c \<le> q"
    using r(1) cpos by (simp add: q divide_right_mono)
  have "real r \<le> real c - 1" using r(2) by linarith
  then have "real r / real c \<le> (real c - 1) / real c"
    using cpos by (simp add: divide_right_mono)
  also have "\<dots> = 1 - 1 / real c" using cpos by (simp add: diff_divide_distrib)
  finally have hi: "q \<le> real k + 1 - 1 / real c" by (simp add: q)
  have qpos: "0 < q" using lo cpos
    by (smt (verit) divide_pos_pos of_nat_0_le_iff)
  have "real n < 2 ^ 24" using n by (metis of_nat_less_numeral_power_cancel_iff)
  then have "q < 2 ^ 24 / real c" using cpos by (simp add: q_def divide_strict_right_mono)
  then have small: "q / 2 ^ 24 < 1 / real c" by (simp add: field_simps)
  have "real c < 2 ^ 24" using c24 by (metis of_nat_less_numeral_power_cancel_iff)
  then have "1 / 2 ^ 24 < 1 / real c" using cpos by (simp add: field_simps)
  moreover have "(1::real) / 2 ^ 126 \<le> 1 / 2 ^ 24" by simp
  ultimately have "1 / 2 ^ 126 \<le> \<bar>q\<bar>" using lo qpos by linarith
  from to_float_relative[OF this] have "\<bar>to_float q - q\<bar> \<le> q / 2 ^ 24"
    using qpos by simp
  then have "real k < to_float q" "to_float q < real k + 1"
    using small lo hi by linarith+
  then have "\<lfloor>to_float q\<rfloor> = int k"
    by (simp add: floor_unique)
  then show ?thesis by (simp add: q_def k_def)
qed

lemma to_size_t_float_div:
  assumes "n < 2 ^ 24" "0 < c" "c < 2 ^ 24"
  shows "to_size_t (to_float (real n / to_float (real c))) = Inr (n div c)"
proof -
  let ?q = "to_float (real n / real c)"
  have fl: "\<lfloor>?q\<rfloor> = int (n div c)" using assms by (rule to_float_div_floor)
  then have "0 \<le> ?q" by (metis of_nat_0_le_iff zero_le_floor)
  then have t: "trunc_toward_zero ?q = int (n div c)"
    by (simp add: trunc_toward_zero_def fl)
  have "n div c < 2 ^ 24"
    using assms(1) by (rule le_less_trans[OF div_le_dividend])
  then have "n div c < 2 ^ 64" by simp
  then have "int (n div c) < 2 ^ 64" by (metis of_nat_less_numeral_power_cancel_iff)
  then show ?thesis
    using assms(3) by (simp add: to_size_t_def t to_float_nat)
qed




section \<open>Properties of the bin lattice\<close>





lemma wf_BinLattice: "wf_lattice T (BinLattice T)"
  by (simp add: wf_lattice_def BinLattice_def)

lemma binContents_BinLattice:
  "x < BINS T \<Longrightarrow> y < BINS T \<Longrightarrow> binContents (BinLattice T ! x ! y) = []"
  by (simp add: BinLattice_def binContents_def)



lemma addBoid_Inr:
  assumes wf: "wf_lattice T lattice" and add: "addBoid T mem boid lattice = Inr lattice'"
  shows "\<exists>x y. x < BINS T \<and> y < BINS T \<and> inCell T mem x y boid \<and>
           wf_lattice T lattice' \<and>
           (\<forall>x' < BINS T. \<forall>y' < BINS T.
              binContents (lattice' ! x' ! y') =
                (if x' = x \<and> y' = y then binContents (lattice ! x ! y) @ [boid]
                 else binContents (lattice ! x' ! y')))"
proof -
  from add obtain x y where
    cx: "cellIndex (WIDTH T) (BINS T) (fst (position (mem boid))) = Inr x" and
    cy: "cellIndex (HEIGHT T) (BINS T) (snd (position (mem boid))) = Inr y" and
    rng: "x < length lattice" "y < length (lattice ! x)" and
    room: "snd (lattice ! x ! y) < length (fst (lattice ! x ! y))" and
    l': "lattice' = lattice[x := (lattice ! x)
            [y := ((fst (lattice ! x ! y))[snd (lattice ! x ! y) := boid],
                   snd (lattice ! x ! y) + 1)]]"
    by (auto simp: addBoid_def Let_def split: sum.splits if_splits)
  have xB: "x < BINS T" using rng(1) wf by (simp add: wf_lattice_def)
  then have yB: "y < BINS T" using rng(2) wf by (simp add: wf_lattice_def)
  have len: "length (fst (lattice ! x ! y)) = BIN_SIZE T"
    using wf xB yB by (simp add: wf_lattice_def)
  let ?new = "((fst (lattice ! x ! y))[snd (lattice ! x ! y) := boid], snd (lattice ! x ! y) + 1)"
  have row: "lattice' ! x' = (if x' = x then (lattice ! x)[y := ?new] else lattice ! x')"
    if "x' < BINS T" for x'
    using that wf unfolding l' by (simp add: wf_lattice_def nth_list_update)
  have rowlen: "length (lattice ! x') = BINS T" if "x' < BINS T" for x'
    using that wf by (simp add: wf_lattice_def)
  have bin: "lattice' ! x' ! y' = (if x' = x \<and> y' = y then ?new else lattice ! x' ! y')"
    if "x' < BINS T" "y' < BINS T" for x' y'
    using that rowlen[of x'] rowlen[of x] by (auto simp: row nth_list_update)
  have old: "length (fst (lattice ! x' ! y')) = BIN_SIZE T \<and> snd (lattice ! x' ! y') \<le> BIN_SIZE T"
    if "x' < BINS T" "y' < BINS T" for x' y'
    using that wf by (simp add: wf_lattice_def)
  have wf': "wf_lattice T lattice'"
    unfolding wf_lattice_def
  proof (intro conjI allI impI)
    show "length lattice' = BINS T" using wf by (simp add: l' wf_lattice_def)
  next
    fix x' assume "x' < BINS T"
    then show "length (lattice' ! x') = BINS T" using rowlen[of x'] by (auto simp: row)
  next
    fix x' y' assume "x' < BINS T" "y' < BINS T"
    then show "length (fst (lattice' ! x' ! y')) = BIN_SIZE T"
      using old[of x' y'] by (auto simp: bin)
  next
    fix x' y' assume "x' < BINS T" "y' < BINS T"
    then show "snd (lattice' ! x' ! y') \<le> BIN_SIZE T"
      using old[of x' y'] room len by (auto simp: bin)
  qed
  have cont: "binContents (lattice' ! x' ! y') =
                (if x' = x \<and> y' = y then binContents (lattice ! x ! y) @ [boid]
                 else binContents (lattice ! x' ! y'))"
    if "x' < BINS T" "y' < BINS T" for x' y'
    using that room by (auto simp: bin binContents_def take_Suc_conv_app_nth)
  show ?thesis
    using xB yB cx cy wf' cont unfolding inCell_def by blast
qed





lemma cellIndex_nat:
  assumes "0 < D div N" "D div N < 2 ^ 24" "n < 2 ^ 24"
  shows "cellIndex D N (real n) = Inr (n div (D div N))"
  using assms to_size_t_float_div[of n "D div N"] by (simp add: cellIndex_def)









lemma addBoid_full:
  assumes "wf_lattice T lattice" "x < BINS T" "y < BINS T" "inCell T mem x y boid"
    and "snd (lattice ! x ! y) = BIN_SIZE T"
  shows "addBoid T mem boid lattice = Inl ArrayIndexOutOfRange"
  using assms by (simp add: addBoid_def inCell_def wf_lattice_def)

lemma addBoid_room:
  assumes wf: "wf_lattice T lattice" and xy: "x < BINS T" "y < BINS T"
    and ic: "inCell T mem x y boid" and room: "snd (lattice ! x ! y) < BIN_SIZE T"
  shows "\<exists>lattice'. addBoid T mem boid lattice = Inr lattice' \<and> wf_lattice T lattice' \<and>
           snd (lattice' ! x ! y) = snd (lattice ! x ! y) + 1"
proof -
  let ?new = "((fst (lattice ! x ! y))[snd (lattice ! x ! y) := boid], snd (lattice ! x ! y) + 1)"
  let ?l = "lattice[x := (lattice ! x)[y := ?new]]"
  have len: "x < length lattice" "y < length (lattice ! x)"
    "length (fst (lattice ! x ! y)) = BIN_SIZE T"
    using wf xy by (simp_all add: wf_lattice_def)
  then have add: "addBoid T mem boid lattice = Inr ?l"
    using ic room by (simp add: addBoid_def inCell_def Let_def)
  have "snd (?l ! x ! y) = snd (lattice ! x ! y) + 1"
    using len by simp
  moreover have "wf_lattice T ?l"
    using addBoid_Inr[OF wf add] by blast
  ultimately show ?thesis using add by blast
qed

lemma addBoids_same_cell:
  "wf_lattice T lattice \<Longrightarrow> x < BINS T \<Longrightarrow> y < BINS T \<Longrightarrow>
   \<forall>b \<in> set boids. inCell T mem x y b \<Longrightarrow>
   snd (lattice ! x ! y) + length boids \<le> BIN_SIZE T \<Longrightarrow>
   \<exists>lattice'. addBoids T mem boids lattice = Inr lattice' \<and> wf_lattice T lattice' \<and>
      snd (lattice' ! x ! y) = snd (lattice ! x ! y) + length boids"
proof (induction boids arbitrary: lattice)
  case Nil
  then show ?case by simp
next
  case (Cons b boids)
  have "inCell T mem x y b" "snd (lattice ! x ! y) < BIN_SIZE T"
    using Cons.prems(4,5) by simp_all
  from addBoid_room[OF Cons.prems(1-3) this] obtain l1 where
    l1: "addBoid T mem b lattice = Inr l1" "wf_lattice T l1"
      "snd (l1 ! x ! y) = snd (lattice ! x ! y) + 1"
    by blast
  have "\<forall>b \<in> set boids. inCell T mem x y b" "snd (l1 ! x ! y) + length boids \<le> BIN_SIZE T"
    using Cons.prems(4,5) l1(3) by simp_all
  from Cons.IH[OF l1(2) Cons.prems(2,3) this] obtain l2 where
    "addBoids T mem boids l1 = Inr l2" "wf_lattice T l2"
    "snd (l2 ! x ! y) = snd (l1 ! x ! y) + length boids"
    by blast
  then show ?case using l1 by simp
qed

lemma addBoids_append:
  "addBoids T mem (as @ bs) lattice =
     (case addBoids T mem as lattice of Inl u \<Rightarrow> Inl u | Inr lattice' \<Rightarrow> addBoids T mem bs lattice')"
  by (induction as arbitrary: lattice) (auto split: sum.splits)

lemma example_first_cell: "5 \<le> b \<Longrightarrow> inCell mainParams exampleMemory 0 0 b"
  using cellIndex_nat[of 1000 20 25]
  by (simp add: inCell_def exampleMemory_def mainParams_def)






section \<open>Properties of the spatial hash\<close>

lemma bucket_of_less: "bucket_of pos < pivotTableSize"
  by (simp add: bucket_of_def getCellIndex_def pivotTableSize_def Let_def)

lemma bucket_count_Cons:
  "bucket_count (e # es) b = (if bucket_of (position e) = b then 1 else 0) + bucket_count es b"
  by (simp add: bucket_count_def)

lemma bucket_count_Nil: "bucket_count [] b = 0"
  by (simp add: bucket_count_def)

lemma bucket_count_append: "bucket_count (xs @ ys) b = bucket_count xs b + bucket_count ys b"
  by (simp add: bucket_count_def)

lemma bucket_start_Suc: "bucket_start els (Suc b) = bucket_start els b + bucket_count els b"
  unfolding bucket_start_def bucket_count_def
  by (induction els) (auto simp: less_Suc_eq)

lemma bucket_start_0: "bucket_start els 0 = 0"
  by (simp add: bucket_start_def)

lemma bucket_start_mono: "a \<le> b \<Longrightarrow> bucket_start els a \<le> bucket_start els b"
  unfolding bucket_start_def
  by (induction els) (auto simp: le_SucI)

lemma bucket_start_all: "bucket_start els pivotTableSize = length els"
  by (simp add: bucket_start_def bucket_of_less)

lemma count_usage_fold:
  "\<forall>e \<in> set es. bucket_of (position e) < length p \<Longrightarrow>
   fold (\<lambda>element pvs.
           pvs[bucket_of (position element) := pvs ! bucket_of (position element) + 1]) es p =
     map (\<lambda>c. p ! c + bucket_count es c) [0..<length p]"
proof (induction es arbitrary: p)
  case Nil
  then show ?case by (simp add: bucket_count_Nil map_nth)
next
  case (Cons e es)
  let ?c = "bucket_of (position e)"
  let ?p = "p[?c := p ! ?c + 1]"
  have "\<forall>e \<in> set es. bucket_of (position e) < length ?p" using Cons.prems by simp
  from Cons.IH[OF this] show ?case
    using Cons.prems by (auto simp: bucket_count_Cons nth_list_update)
qed

lemma count_usage_eq: "count_usage els = map (bucket_count els) [0..<pivotTableSize]"
  unfolding count_usage_def
  by (subst count_usage_fold) (simp_all add: bucket_of_less)

lemma start_indices_eq:
  "start_indices (map (bucket_count els) [a..<b]) (bucket_start els a) =
     map (bucket_start els) [a..<b]"
proof (induction "b - a" arbitrary: a)
  case 0
  then show ?case by simp
next
  case (Suc n)
  then have ab: "a < b" and n: "n = b - Suc a" by simp_all
  show ?case
    using Suc.hyps(1)[OF n] ab by (simp add: upt_conv_Cons bucket_start_Suc)
qed

lemma reposition_eq:
  "i < length q \<Longrightarrow> reposition q i = q ! 0 # take i q @ drop (Suc i) q"
proof (induction i arbitrary: q)
  case 0
  then show ?case by (cases q) simp_all
next
  case (Suc i)
  let ?q = "q[Suc i := q ! i]"
  have "reposition ?q i = ?q ! 0 # take i ?q @ drop (Suc i) ?q"
    using Suc.prems by (intro Suc.IH) simp
  also have "drop (Suc i) ?q = q ! i # drop (Suc (Suc i)) q"
    using Suc.prems by (simp add: upd_conv_take_nth_drop min_def)
  finally show ?case using Suc.prems by (simp add: take_Suc_conv_app_nth)
qed

lemma fill_hashtable_correct:
  "\<forall>e \<in> set es. bucket_of (position e) < length pvs \<Longrightarrow>
   \<forall>c < length pvs. pvs ! c + bucket_count es c \<le> length table \<Longrightarrow>
   \<forall>c < length pvs. \<forall>c' < length pvs. c \<noteq> c' \<longrightarrow>
      pvs ! c + bucket_count es c \<le> pvs ! c' \<or> pvs ! c' + bucket_count es c' \<le> pvs ! c \<Longrightarrow>
   \<exists>pvs' table'. fill_hashtable es i pvs table = Inr (pvs', table') \<and>
      length pvs' = length pvs \<and> length table' = length table \<and>
      (\<forall>c < length pvs. pvs' ! c = pvs ! c + bucket_count es c) \<and>
      (\<forall>j < length es.
         table' ! (pvs ! bucket_of (position (es ! j)) +
                   bucket_count (take j es) (bucket_of (position (es ! j)))) = i + j) \<and>
      (\<forall>k < length table.
         (\<forall>c < length pvs. \<not> (pvs ! c \<le> k \<and> k < pvs ! c + bucket_count es c)) \<longrightarrow>
         table' ! k = table ! k)"
proof (induction es arbitrary: i pvs table)
  case Nil
  then show ?case by (simp add: bucket_count_Nil)
next
  case (Cons e es)
  let ?b = "bucket_of (position e)"
  let ?index = "pvs ! ?b"
  let ?pvs = "pvs[?b := ?index + 1]"
  let ?table = "table[?index := i]"
  have b: "?b < length pvs" using Cons.prems(1) by simp
  have cnt: "bucket_count (e # es) c = (if ?b = c then 1 else 0) + bucket_count es c" for c
    by (rule bucket_count_Cons)
  have fits: "pvs ! c + bucket_count (e # es) c \<le> length table" if "c < length pvs" for c
    using Cons.prems(2) that by blast
  have apart: "pvs ! c + bucket_count (e # es) c \<le> pvs ! c' \<or>
               pvs ! c' + bucket_count (e # es) c' \<le> pvs ! c"
    if "c < length pvs" "c' < length pvs" "c \<noteq> c'" for c c'
    using Cons.prems(3) that by blast
  have index: "?index < length table"
    using fits[OF b] by (simp add: cnt)
  have new: "?pvs ! c + bucket_count es c = pvs ! c + bucket_count (e # es) c"
    if "c < length pvs" for c
    using that by (simp add: cnt nth_list_update)
  have grow: "pvs ! c \<le> ?pvs ! c" for c
    using b by (cases "c = ?b") simp_all
  have p1: "\<forall>e \<in> set es. bucket_of (position e) < length ?pvs"
    using Cons.prems(1) by simp
  have p2: "\<forall>c < length ?pvs. ?pvs ! c + bucket_count es c \<le> length ?table"
    using fits new by simp
  have p3: "\<forall>c < length ?pvs. \<forall>c' < length ?pvs. c \<noteq> c' \<longrightarrow>
      ?pvs ! c + bucket_count es c \<le> ?pvs ! c' \<or> ?pvs ! c' + bucket_count es c' \<le> ?pvs ! c"
  proof (intro allI impI)
    fix c c' assume c: "c < length ?pvs" "c' < length ?pvs" "c \<noteq> c'"
    then have lc: "c < length pvs" "c' < length pvs" by simp_all
    have "?pvs ! c' \<ge> pvs ! c'" "?pvs ! c \<ge> pvs ! c"
      by (rule grow)+
    then show "?pvs ! c + bucket_count es c \<le> ?pvs ! c' \<or>
               ?pvs ! c' + bucket_count es c' \<le> ?pvs ! c"
      using apart[OF lc c(3)] new[OF lc(1)] new[OF lc(2)] by linarith
  qed
  from Cons.IH[OF p1 p2 p3, of "i + 1"] obtain pvs' table' where
    run: "fill_hashtable es (i + 1) ?pvs ?table = Inr (pvs', table')" and
    len: "length pvs' = length pvs" "length table' = length table" and
    ends: "\<And>c. c < length pvs \<Longrightarrow> pvs' ! c = ?pvs ! c + bucket_count es c" and
    placed: "\<And>j. j < length es \<Longrightarrow>
       table' ! (?pvs ! bucket_of (position (es ! j)) +
                 bucket_count (take j es) (bucket_of (position (es ! j)))) = i + 1 + j" and
    kept: "\<And>k. k < length table \<Longrightarrow>
       (\<forall>c < length pvs. \<not> (?pvs ! c \<le> k \<and> k < ?pvs ! c + bucket_count es c)) \<Longrightarrow>
       table' ! k = ?table ! k"
    by auto
  have outside: "\<not> (?pvs ! c \<le> ?index \<and> ?index < ?pvs ! c + bucket_count es c)"
    if "c < length pvs" for c
  proof (cases "c = ?b")
    case True
    then show ?thesis using b by simp
  next
    case False
    then show ?thesis
      using apart[OF that b False] new[OF that] that by (auto simp: cnt nth_list_update)
  qed
  have first: "table' ! ?index = i"
    using kept[OF index] outside index by simp
  have goal1: "fill_hashtable (e # es) i pvs table = Inr (pvs', table')"
    using run index by (simp add: Let_def)
  have goal2: "pvs' ! c = pvs ! c + bucket_count (e # es) c" if "c < length pvs" for c
    using ends[OF that] new[OF that] by simp
  have goal3: "table' ! (pvs ! bucket_of (position ((e # es) ! j)) +
                 bucket_count (take j (e # es)) (bucket_of (position ((e # es) ! j)))) = i + j"
    if "j < length (e # es)" for j
  proof (cases j)
    case 0
    then show ?thesis using first by (simp add: bucket_count_Nil)
  next
    case (Suc j')
    then have j': "j' < length es" using that by simp
    let ?c = "bucket_of (position (es ! j'))"
    have "?c < length pvs" using Cons.prems(1) j' by simp
    then have "pvs ! ?c + bucket_count (take j (e # es)) ?c =
          ?pvs ! ?c + bucket_count (take j' es) ?c"
      using Suc by (auto simp: bucket_count_Cons nth_list_update)
    then show ?thesis using placed[OF j'] Suc by simp
  qed
  have goal4: "table' ! k = table ! k"
    if k: "k < length table"
      and out: "\<forall>c < length pvs. \<not> (pvs ! c \<le> k \<and> k < pvs ! c + bucket_count (e # es) c)" for k
  proof -
    have "k \<noteq> ?index" using out b by (auto simp: cnt)
    moreover have "\<forall>c < length pvs. \<not> (?pvs ! c \<le> k \<and> k < ?pvs ! c + bucket_count es c)"
    proof (intro allI impI)
      fix c assume c: "c < length pvs"
      have "pvs ! c \<le> ?pvs ! c" by (rule grow)
      then show "\<not> (?pvs ! c \<le> k \<and> k < ?pvs ! c + bucket_count es c)"
        using out c new[OF c] by auto
    qed
    ultimately show ?thesis using kept[OF k] by simp
  qed
  show ?case
    using goal1 goal2 goal3 goal4 len by blast
qed

lemma update_result:
  "\<exists>table. SpatialHashing_update shuffled s =
       Inr (s\<lparr>shuffler := shuffled, hashtable := table,
              pivots := map (bucket_start (elements s)) [0..<Suc pivotTableSize]\<rparr>) \<and>
     length table = length (elements s) \<and>
     (\<forall>j < length (elements s). table ! slot (elements s) j = j)"
proof -
  define els where "els = elements s"
  define starts where "starts = map (bucket_start els) [0..<pivotTableSize]"
  have starts: "start_indices (count_usage els) 0 = starts"
    using start_indices_eq[of els 0 pivotTableSize]
    by (simp add: count_usage_eq starts_def bucket_start_0)
  have len: "length starts = pivotTableSize" by (simp add: starts_def)
  have nth: "starts ! c = bucket_start els c" if "c < pivotTableSize" for c
    using that by (simp add: starts_def)
  have stop: "starts ! c + bucket_count els c = bucket_start els (Suc c)"
    if "c < pivotTableSize" for c
    using that by (simp add: nth bucket_start_Suc)
  have p1: "\<forall>e \<in> set els. bucket_of (position e) < length starts"
    by (simp add: len bucket_of_less)
  have p2: "\<forall>c < length starts. starts ! c + bucket_count els c \<le> length (replicate (length els) (0::nat))"
  proof (intro allI impI)
    fix c assume "c < length starts"
    then have c: "c < pivotTableSize" by (simp add: len)
    have "bucket_start els (Suc c) \<le> bucket_start els pivotTableSize"
      using c by (intro bucket_start_mono) simp
    then show "starts ! c + bucket_count els c \<le> length (replicate (length els) (0::nat))"
      using stop[OF c] by (simp add: bucket_start_all)
  qed
  have order: "starts ! c + bucket_count els c \<le> starts ! c'"
    if "c < c'" "c' < pivotTableSize" for c c'
  proof -
    have "bucket_start els (Suc c) \<le> bucket_start els c'"
      using that by (intro bucket_start_mono) simp
    then show ?thesis using that stop[of c] nth[of c'] by simp
  qed
  have p3: "\<forall>c < length starts. \<forall>c' < length starts. c \<noteq> c' \<longrightarrow>
      starts ! c + bucket_count els c \<le> starts ! c' \<or>
      starts ! c' + bucket_count els c' \<le> starts ! c"
  proof (intro allI impI)
    fix c c' assume "c < length starts" "c' < length starts" "c \<noteq> c'"
    then consider "c < c'" "c' < pivotTableSize" | "c' < c" "c < pivotTableSize"
      using len by (metis nat_neq_iff)
    then show "starts ! c + bucket_count els c \<le> starts ! c' \<or>
               starts ! c' + bucket_count els c' \<le> starts ! c"
      using order by cases blast+
  qed
  from fill_hashtable_correct[OF p1 p2 p3, of 0] obtain ends table where
    run: "fill_hashtable els 0 starts (replicate (length els) 0) = Inr (ends, table)" and
    lens: "length ends = pivotTableSize" "length table = length els" and
    ends: "\<And>c. c < pivotTableSize \<Longrightarrow> ends ! c = starts ! c + bucket_count els c" and
    placed: "\<And>j. j < length els \<Longrightarrow>
       table ! (starts ! bucket_of (position (els ! j)) +
                bucket_count (take j els) (bucket_of (position (els ! j)))) = 0 + j"
    by (auto simp: len)
  have ends_eq: "ends = map (\<lambda>c. bucket_start els (Suc c)) [0..<pivotTableSize]"
    by (rule nth_equalityI) (simp_all add: lens ends stop)
  let ?pushed = "ends @ [last ends]"
  have "reposition ?pushed (length ?pushed - 1) =
          ?pushed ! 0 # take (length ends) ?pushed @ drop (Suc (length ends)) ?pushed"
    by (simp add: reposition_eq)
  then have "(reposition ?pushed (length ?pushed - 1))[0 := 0] = 0 # ends"
    by simp
  also have "\<dots> = map (bucket_start els) [0..<Suc pivotTableSize]"
    unfolding ends_eq by (simp add: map_upt_Suc bucket_start_0 del: upt_Suc)
  finally have moved: "(reposition ?pushed (length ?pushed - 1))[0 := 0] =
      map (bucket_start els) [0..<Suc pivotTableSize]" .
  have upd: "SpatialHashing_update shuffled s =
       Inr (s\<lparr>shuffler := shuffled, hashtable := table,
              pivots := map (bucket_start els) [0..<Suc pivotTableSize]\<rparr>)"
    unfolding SpatialHashing_update_def Let_def els_def[symmetric] starts run
    using moved by simp
  have "table ! slot els j = j" if "j < length els" for j
    using placed[OF that] by (simp add: slot_def nth bucket_of_less)
  then show ?thesis using upd lens(2) unfolding els_def by blast
qed

lemma bucket_count_pos:
  assumes "j < length els"
  shows "bucket_count (take j els) (bucket_of (position (els ! j))) <
         bucket_count els (bucket_of (position (els ! j)))"
proof -
  let ?c = "bucket_of (position (els ! j))"
  have "els = take j els @ els ! j # drop (Suc j) els"
    using assms by (simp add: id_take_nth_drop)
  then have "bucket_count els ?c =
      bucket_count (take j els) ?c + bucket_count (els ! j # drop (Suc j) els) ?c"
    by (metis bucket_count_append)
  then show ?thesis by (simp add: bucket_count_Cons)
qed

lemma slot_range:
  assumes "j < length els"
  shows "bucket_start els (bucket_of (position (els ! j))) \<le> slot els j"
    and "slot els j < bucket_start els (Suc (bucket_of (position (els ! j))))"
  using bucket_count_pos[OF assms] by (simp_all add: slot_def bucket_start_Suc)

lemma slot_less:
  assumes "j < length els"
  shows "slot els j < length els"
proof -
  have "bucket_start els (Suc (bucket_of (position (els ! j)))) \<le> bucket_start els pivotTableSize"
    using bucket_of_less[of "position (els ! j)"] by (intro bucket_start_mono) simp
  then show ?thesis using slot_range(2)[OF assms] by (simp add: bucket_start_all)
qed

lemma slot_onto:
  assumes table: "\<forall>j < length els. table ! slot els j = j" and k: "k < length els"
  shows "\<exists>j < length els. slot els j = k"
proof -
  have inj: "inj_on (slot els) {..<length els}"
  proof (rule inj_onI)
    fix i j assume "i \<in> {..<length els}" "j \<in> {..<length els}" "slot els i = slot els j"
    then show "i = j" using table by (metis lessThan_iff)
  qed
  have sub: "slot els ` {..<length els} \<subseteq> {..<length els}"
    using slot_less by auto
  have "card (slot els ` {..<length els}) = card {..<length els}"
    using inj by (rule card_image)
  with sub have "slot els ` {..<length els} = {..<length els}"
    by (intro card_subset_eq) simp_all
  then show ?thesis using k by (metis imageE lessThan_iff)
qed

lemma table_bucket:
  assumes table: "\<forall>j < length els. table ! slot els j = j"
    and i: "bucket_start els b \<le> i" "i < bucket_start els (Suc b)"
  shows "i < length els" and "table ! i < length els"
    and "bucket_of (position (els ! (table ! i))) = b"
proof -
  have "bucket_start els (Suc b) \<le> length els"
    unfolding bucket_start_def by simp
  then show less: "i < length els" using i(2) by simp
  from slot_onto[OF table less] obtain j where j: "j < length els" "slot els j = i"
    by blast
  then have tj: "table ! i = j" using table by blast
  then show "table ! i < length els" using j(1) by simp
  let ?c = "bucket_of (position (els ! j))"
  have "\<not> ?c < b"
  proof
    assume "?c < b"
    then have "bucket_start els (Suc ?c) \<le> bucket_start els b"
      by (intro bucket_start_mono) simp
    then show False using slot_range(2)[OF j(1)] j(2) i(1) by simp
  qed
  moreover have "\<not> b < ?c"
  proof
    assume "b < ?c"
    then have "bucket_start els (Suc b) \<le> bucket_start els ?c"
      by (intro bucket_start_mono) simp
    then show False using slot_range(1)[OF j(1)] j(2) i(2) by simp
  qed
  ultimately show "bucket_of (position (els ! (table ! i))) = b"
    using tj by simp
qed

lemma nth_filter_index:
  "t < length (filter P xs) \<Longrightarrow>
   \<exists>j < length xs. P (xs ! j) \<and> length (filter P (take j xs)) = t \<and> filter P xs ! t = xs ! j"
proof (induction xs arbitrary: t)
  case Nil
  then show ?case by simp
next
  case (Cons x xs)
  show ?case
  proof (cases "P x")
    case True
    show ?thesis
    proof (cases t)
      case 0
      then show ?thesis using True by (intro exI[of _ 0]) simp
    next
      case (Suc t')
      then have "t' < length (filter P xs)" using Cons.prems True by simp
      from Cons.IH[OF this] obtain j where
        "j < length xs" "P (xs ! j)" "length (filter P (take j xs)) = t'" "filter P xs ! t' = xs ! j"
        by blast
      then show ?thesis using True Suc by (intro exI[of _ "Suc j"]) simp
    qed
  next
    case False
    then have "t < length (filter P xs)" using Cons.prems by simp
    from Cons.IH[OF this] obtain j where
      "j < length xs" "P (xs ! j)" "length (filter P (take j xs)) = t" "filter P xs ! t = xs ! j"
      by blast
    then show ?thesis using False by (intro exI[of _ "Suc j"]) simp
  qed
qed

lemma table_bucket_list:
  assumes table: "\<forall>j < length els. table ! slot els j = j"
  shows "map (\<lambda>i. els ! (table ! i)) [bucket_start els b..<bucket_start els (Suc b)] =
         filter (\<lambda>e. bucket_of (position e) = b) els"
proof (rule nth_equalityI)
  show "length (map (\<lambda>i. els ! (table ! i)) [bucket_start els b..<bucket_start els (Suc b)]) =
        length (filter (\<lambda>e. bucket_of (position e) = b) els)"
    by (simp add: bucket_start_Suc bucket_count_def)
next
  fix t
  assume "t < length (map (\<lambda>i. els ! (table ! i)) [bucket_start els b..<bucket_start els (Suc b)])"
  then have t: "t < length (filter (\<lambda>e. bucket_of (position e) = b) els)"
    by (simp add: bucket_start_Suc bucket_count_def)
  from nth_filter_index[OF t] obtain j where j: "j < length els"
    "bucket_of (position (els ! j)) = b"
    "length (filter (\<lambda>e. bucket_of (position e) = b) (take j els)) = t"
    "filter (\<lambda>e. bucket_of (position e) = b) els ! t = els ! j"
    by blast
  have "slot els j = bucket_start els b + t"
    using j(2,3) by (simp add: slot_def bucket_count_def)
  then have "table ! (bucket_start els b + t) = j" using table j(1) by metis
  moreover have "bucket_start els b + t < bucket_start els (Suc b)"
    using t by (simp add: bucket_start_Suc bucket_count_def)
  ultimately show "map (\<lambda>i. els ! (table ! i)) [bucket_start els b..<bucket_start els (Suc b)] ! t =
        filter (\<lambda>e. bucket_of (position e) = b) els ! t"
    using j(4) by simp
qed

lemma query_loop_eq:
  "\<forall>i \<in> set is. i < length table \<and> table ! i < length els \<Longrightarrow>
   SpatialHashing_query_loop els table pred m is count result =
     Inr (result @ filter pred (map (\<lambda>i. els ! (table ! i)) (take (m - count) is)))"
proof (induction "is" arbitrary: count result)
  case Nil
  then show ?case by simp
next
  case (Cons i "is")
  show ?case
  proof (cases "count \<ge> m")
    case True
    then show ?thesis by simp
  next
    case False
    then have "m - count = Suc (m - (count + 1))" by simp
    then show ?thesis using Cons False by simp
  qed
qed

lemma query_built:
  assumes pv: "pivots s = map (bucket_start els) [0..<Suc pivotTableSize]"
    and len: "length (hashtable s) = length els"
    and table: "\<forall>j < length els. hashtable s ! slot els j = j"
    and more: "elements s = els @ extra"
  shows "SpatialHashing_query s el pred m =
     Inr (filter pred (take m (filter (\<lambda>e. bucket_of (position e) = bucket_of (position el)) els)))"
proof -
  let ?b = "bucket_of (position el)"
  let ?range = "[bucket_start els ?b..<bucket_start els (Suc ?b)]"
  have b: "?b < pivotTableSize" by (rule bucket_of_less)
  have start: "pivots s ! ?b = bucket_start els ?b"
    and stop: "pivots s ! (?b + 1) = bucket_start els (Suc ?b)"
    using b unfolding pv by (simp_all add: nth_append del: upt_Suc)
  have inr: "\<forall>i \<in> set ?range. i < length (hashtable s) \<and> hashtable s ! i < length (elements s)"
  proof
    fix i assume "i \<in> set ?range"
    then have i: "bucket_start els ?b \<le> i" "i < bucket_start els (Suc ?b)" by simp_all
    have "i < length els" "hashtable s ! i < length els"
      using table_bucket(1,2)[OF table i] by simp_all
    then show "i < length (hashtable s) \<and> hashtable s ! i < length (elements s)"
      by (simp add: len more)
  qed
  have same: "map (\<lambda>i. elements s ! (hashtable s ! i)) (take m ?range) =
              map (\<lambda>i. els ! (hashtable s ! i)) (take m ?range)"
  proof (rule map_cong[OF refl])
    fix i assume "i \<in> set (take m ?range)"
    then have "i \<in> set ?range" by (rule in_set_takeD)
    then have "bucket_start els ?b \<le> i" "i < bucket_start els (Suc ?b)" by simp_all
    then have "hashtable s ! i < length els" by (rule table_bucket(2)[OF table])
    then show "elements s ! (hashtable s ! i) = els ! (hashtable s ! i)"
      by (simp add: more nth_append)
  qed
  have "SpatialHashing_query s el pred m =
      SpatialHashing_query_loop (elements s) (hashtable s) pred m ?range 0 []"
    using b by (simp add: SpatialHashing_query_def Let_def start stop pv del: upt_Suc)
  also have "\<dots> = Inr (filter pred (map (\<lambda>i. elements s ! (hashtable s ! i)) (take m ?range)))"
    using query_loop_eq[OF inr] by simp
  also have "map (\<lambda>i. elements s ! (hashtable s ! i)) (take m ?range) =
             take m (map (\<lambda>i. els ! (hashtable s ! i)) ?range)"
    by (simp add: same take_map)
  also have "map (\<lambda>i. els ! (hashtable s ! i)) ?range =
             filter (\<lambda>e. bucket_of (position e) = ?b) els"
    by (rule table_bucket_list[OF table])
  finally show ?thesis .
qed

lemma update_Inr:
  "\<exists>s'. SpatialHashing_update shuffled s = Inr s' \<and>
     elements s' = elements s \<and> box s' = box s \<and> shuffler s' = shuffled \<and>
     pivots s' = map (bucket_start (elements s)) [0..<Suc pivotTableSize] \<and>
     length (hashtable s') = length (elements s) \<and>
     (\<forall>j < length (elements s). hashtable s' ! slot (elements s) j = j)"
proof -
  from update_result[of shuffled s] obtain table where
    "SpatialHashing_update shuffled s =
       Inr (s\<lparr>shuffler := shuffled, hashtable := table,
              pivots := map (bucket_start (elements s)) [0..<Suc pivotTableSize]\<rparr>)"
    "length table = length (elements s)"
    "\<forall>j < length (elements s). table ! slot (elements s) j = j"
    by blast
  then show ?thesis by simp
qed

lemma elements_inserts: "elements (fold SpatialHashing_insert ds s) = elements s @ ds"
  by (induction ds arbitrary: s) (simp_all add: SpatialHashing_insert_def)

lemma pivots_inserts: "pivots (fold SpatialHashing_insert ds s) = pivots s"
  by (induction ds arbitrary: s) (simp_all add: SpatialHashing_insert_def)

lemma hashtable_inserts: "hashtable (fold SpatialHashing_insert ds s) = hashtable s"
  by (induction ds arbitrary: s) (simp_all add: SpatialHashing_insert_def)

lemma bucket_built:
  assumes "pivots s = map (bucket_start (elements s)) [0..<Suc pivotTableSize]"
    and "\<forall>j < length (elements s). hashtable s ! slot (elements s) j = j"
    and "b < pivotTableSize"
  shows "bucket s b = filter (\<lambda>e. bucket_of (position e) = b) (elements s)"
  using assms(3) table_bucket_list[OF assms(2), of b]
  by (simp add: bucket_def assms(1) nth_append del: upt_Suc)

lemma sorted_bucket_starts: "sorted (map (bucket_start els) [0..<n])"
  by (simp add: sorted_iff_nth_mono bucket_start_mono)

lemma query_after_update:
  assumes "SpatialHashing_update shuffled s = Inr s'"
  shows "SpatialHashing_query (fold SpatialHashing_insert ds s') el pred m =
     Inr (filter pred (take m (filter (\<lambda>e. bucket_of (position e) = bucket_of (position el))
                                   (elements s))))"
proof -
  from update_Inr[of shuffled s] assms have
    "elements s' = elements s"
    "pivots s' = map (bucket_start (elements s)) [0..<Suc pivotTableSize]"
    "length (hashtable s') = length (elements s)"
    "\<forall>j < length (elements s). hashtable s' ! slot (elements s) j = j"
    by auto
  then show ?thesis
    by (intro query_built[where extra = ds])
       (simp_all add: pivots_inserts hashtable_inserts elements_inserts)
qed

lemma bucket_after_update:
  assumes "SpatialHashing_update shuffled s = Inr s'" and "b < pivotTableSize"
  shows "bucket s' b = filter (\<lambda>e. bucket_of (position e) = b) (elements s)"
proof -
  from update_Inr[of shuffled s] assms(1) have
    "elements s' = elements s"
    "pivots s' = map (bucket_start (elements s)) [0..<Suc pivotTableSize]"
    "\<forall>j < length (elements s). hashtable s' ! slot (elements s) j = j"
    by auto
  then show ?thesis using bucket_built[of s' b] assms(2) by simp
qed

lemma update_projr:
  "SpatialHashing_update shuffled s = Inr (projr (SpatialHashing_update shuffled s))"
  using update_Inr[of shuffled s] by auto

lemma same_elements_same_index:
  assumes "elements sa = elements sb"
    and "SpatialHashing_update shuffled sa = Inr sa'"
    and "SpatialHashing_update shuffled' sb = Inr sb'"
  shows "elements sa' = elements sb'" "pivots sa' = pivots sb'" "hashtable sa' = hashtable sb'"
proof -
  let ?els = "elements sa"
  from update_Inr[of shuffled sa] assms(2) have a:
    "elements sa' = ?els"
    "pivots sa' = map (bucket_start ?els) [0..<Suc pivotTableSize]"
    "length (hashtable sa') = length ?els"
    "\<forall>j < length ?els. hashtable sa' ! slot ?els j = j"
    by auto
  from update_Inr[of shuffled' sb] assms(1,3) have b:
    "elements sb' = ?els"
    "pivots sb' = map (bucket_start ?els) [0..<Suc pivotTableSize]"
    "length (hashtable sb') = length ?els"
    "\<forall>j < length ?els. hashtable sb' ! slot ?els j = j"
    by auto
  show "elements sa' = elements sb'" "pivots sa' = pivots sb'"
    using a b by simp_all
  show "hashtable sa' = hashtable sb'"
  proof (rule nth_equalityI)
    show "length (hashtable sa') = length (hashtable sb')" using a b by simp
  next
    fix i assume "i < length (hashtable sa')"
    then have "i < length ?els" using a by simp
    from slot_onto[OF a(4) this] obtain j where "j < length ?els" "slot ?els j = i"
      by blast
    then show "hashtable sa' ! i = hashtable sb' ! i" using a(4) b(4) by auto
  qed
qed

lemma Collection_query_loop_eq:
  "count \<le> m \<Longrightarrow>
   Collection_query_loop pred m es count result = result @ take (m - count) (filter pred es)"
proof (induction es arbitrary: count result)
  case Nil
  then show ?case by simp
next
  case (Cons e es)
  show ?case
  proof (cases "pred e \<and> count < m")
    case True
    then have "m - count = Suc (m - (count + 1))" by linarith
    then show ?thesis using True Cons.IH[of "count + 1" "result @ [e]"] by simp
  next
    case False
    then show ?thesis using Cons by auto
  qed
qed


lemma query_before_update:
  "pivots s = [] \<Longrightarrow> SpatialHashing_query s el pred m = Inl ArrayIndexOutOfRange"
  by (simp add: SpatialHashing_query_def Let_def)

lemma query_after_clear:
  assumes "SpatialHashing_update shuffled s = Inr s'"
  shows "SpatialHashing_query (SpatialHashing_clear s') el pred m =
     (if 0 < m \<and> (\<exists>e \<in> set (elements s). bucket_of (position e) = bucket_of (position el))
      then Inl ArrayIndexOutOfRange else Inr [])"
proof -
  let ?b = "bucket_of (position el)" and ?els = "elements s"
  let ?c = "SpatialHashing_clear s'"
  from update_Inr[of shuffled s] assms have
    pv: "pivots s' = map (bucket_start ?els) [0..<Suc pivotTableSize]"
    by auto
  have b: "?b < pivotTableSize" by (rule bucket_of_less)
  have start: "pivots ?c ! ?b = bucket_start ?els ?b"
    and stop: "pivots ?c ! (?b + 1) = bucket_start ?els ?b + bucket_count ?els ?b"
    using b unfolding SpatialHashing_clear_def
    by (simp_all add: pv nth_append bucket_start_Suc del: upt_Suc)
  have run: "SpatialHashing_query ?c el pred m =
      SpatialHashing_query_loop [] (hashtable s') pred m
        [bucket_start ?els ?b..<bucket_start ?els ?b + bucket_count ?els ?b] 0 []"
    unfolding SpatialHashing_query_def Let_def start stop
    using b by (simp add: SpatialHashing_clear_def pv del: upt_Suc)
  have some: "(\<exists>e \<in> set ?els. bucket_of (position e) = ?b) \<longleftrightarrow> 0 < bucket_count ?els ?b"
    by (simp add: bucket_count_def filter_empty_conv)
  show ?thesis
  proof (cases "0 < bucket_count ?els ?b")
    case True
    then have "[bucket_start ?els ?b..<bucket_start ?els ?b + bucket_count ?els ?b] =
        bucket_start ?els ?b # [Suc (bucket_start ?els ?b)..<bucket_start ?els ?b + bucket_count ?els ?b]"
      by (simp add: upt_conv_Cons)
    then show ?thesis using True some by (simp add: run)
  next
    case False
    then show ?thesis using some by (simp add: run)
  qed
qed

lemma elements_exampleHash: "elements (exampleHash bodies) = bodies"
  by (simp add: exampleHash_def elements_inserts new_SpatialHashing_def)

lemma example_buckets:
  "bucket_of (position exA) = 330" "bucket_of (position exB) = 330"
  "bucket_of (position exC) = 823" "bucket_of (position exD) = 330"
  "bucket_of (position exE) = 330"
  by code_simp+


lemma example_distinct: "exA \<noteq> exB" "exA \<noteq> exC" "exA \<noteq> exD"
  by (simp_all add: exA_def exB_def exC_def exD_def new_Body_def)

lemma example_near: "Distance (position exA) 10 exA" "Distance (position exA) 10 exD"
  "\<not> Distance (position exA) 10 exB"
  "\<not> Distance (position exD) 1 exA" "Distance (position exD) 1 exD"
  by code_simp+





section \<open>The claims about the bin lattice\<close>





text \<open>
  C3 (the code at a full bin). \<open>addBoid\<close> has no capacity check and raises nothing. With
  the parameters of \<open>main\<close>, one hundred boids of the first cell fill its bin; the next
  \<open>addBoid\<close> for that cell executes \<open>bin.first[100] = boid\<close>, a write past the end of the
  bin's array of 100 slots.
\<close>

theorem full_bin_write_out_of_range:
  "\<not> isl (addBoids mainParams exampleMemory [5..<105] (BinLattice mainParams)) \<and>
   addBoids mainParams exampleMemory [5..<106] (BinLattice mainParams) = Inl ArrayIndexOutOfRange"
proof -
  have B: "0 < BINS mainParams" by (simp add: mainParams_def)
  have "\<forall>b \<in> set [5..<105]. inCell mainParams exampleMemory 0 0 b"
    by (simp add: example_first_cell)
  moreover have "snd (BinLattice mainParams ! 0 ! 0) + length [5..<105] \<le> BIN_SIZE mainParams"
    by (simp add: BinLattice_def mainParams_def)
  ultimately obtain l where l: "addBoids mainParams exampleMemory [5..<105] (BinLattice mainParams) = Inr l"
    "wf_lattice mainParams l" "snd (l ! 0 ! 0) = snd (BinLattice mainParams ! 0 ! 0) + length [5..<105]"
    using addBoids_same_cell[OF wf_BinLattice B B] by blast
  have "snd (l ! 0 ! 0) = BIN_SIZE mainParams"
    using l(3) by (simp add: BinLattice_def mainParams_def)
  then have "addBoid mainParams exampleMemory 105 l = Inl ArrayIndexOutOfRange"
    using addBoid_full[OF l(2) B B example_first_cell] by simp
  moreover have "[5..<106] = [5..<105] @ [105::nat]"
    by (simp add: upt_rec_numeral)
  ultimately show ?thesis using l(1) by (simp add: addBoids_append del: upt_rec_numeral)
qed

text \<open>
  C4 (the code in an edge cell). For a centre in the first column or row, \<open>xIndex + dx\<close>
  with \<open>dx = -1\<close> wraps to the largest \<open>size_t\<close> and is clamped to \<open>BINS - 1\<close>,
  not to 0: a query centred at \<open>(10, 10)\<close> visits column 19 and row 19, on the opposite
  side of the grid, and with a radius of 1000 reports the boid at \<open>(975, 10)\<close> from cell
  \<open>(19, 0)\<close>.
\<close>

theorem edge_query_scans_opposite_side:
  "cellIndex (WIDTH mainParams) (BINS mainParams) 10 = Inr 0 \<and>
   cellIndex (HEIGHT mainParams) (BINS mainParams) 10 = Inr 0 \<and>
   neighbourCells mainParams 0 0 =
     [(19, 19), (19, 0), (19, 1), (0, 19), (0, 0), (0, 1), (1, 19), (1, 0), (1, 1)] \<and>
   frame mainParams exampleMemory [3] (BinLattice mainParams) (10, 10) 1000 = Inr [3]"
  by code_simp

text \<open>
  C9 (the code outside the window). For the position \<open>(1200, 500)\<close> both paths compute
  the cell index \<open>(24, 10)\<close>. \<open>addBoid\<close> uses it unclamped and indexes the lattice of 20
  rows at row 24; \<open>query\<close> clamps it and examines cell \<open>(19, 10)\<close> as its centre cell
  (the fifth of its nine cells), returning normally.
\<close>

theorem out_of_bounds_insert_and_query_differ:
  "cellIndex (WIDTH mainParams) (BINS mainParams) 1200 = Inr 24 \<and>
   cellIndex (HEIGHT mainParams) (BINS mainParams) 500 = Inr 10 \<and>
   addBoid mainParams exampleMemory 4 (BinLattice mainParams) = Inl ArrayIndexOutOfRange \<and>
   neighbourCells mainParams 24 10 ! 4 = (19, 10) \<and>
   query mainParams exampleMemory (BinLattice mainParams) (1200, 500) 50 = Inr []"
  by code_simp

section \<open>The claims about the spatial hash and the other containers\<close>

text \<open>
  C6. Every call of \<open>update\<close> returns normally, and afterwards the pivot array has
  \<open>pivotTableSize + 1\<close> entries, is non-decreasing, starts with 0 and ends with the
  number of elements; the hash table has one slot per element; every element index
  occurs in exactly one slot of the hash table; and a slot lies in the range
  \<open>[pivots[b], pivots[b + 1])\<close> of exactly one bucket \<open>b\<close>, the bucket obtained by hashing
  the cell coordinate of the element the slot names.
\<close>

theorem update_pivots_partition_hashtable:
  "\<exists>s'. SpatialHashing_update shuffled s = Inr s' \<and>
     elements s' = elements s \<and>
     length (pivots s') = pivotTableSize + 1 \<and>
     length (hashtable s') = length (elements s') \<and>
     sorted (pivots s') \<and> pivots s' ! 0 = 0 \<and> last (pivots s') = length (elements s') \<and>
     (\<forall>j < length (elements s'). \<exists>!i. i < length (hashtable s') \<and> hashtable s' ! i = j) \<and>
     (\<forall>i < length (hashtable s'). \<forall>b < pivotTableSize.
        (pivots s' ! b \<le> i \<and> i < pivots s' ! (b + 1)) \<longleftrightarrow>
        b = bucket_of (position (elements s' ! (hashtable s' ! i))))"
proof -
  from update_Inr[of shuffled s] obtain s' where
    upd: "SpatialHashing_update shuffled s = Inr s'" and
    els: "elements s' = elements s" and
    pv: "pivots s' = map (bucket_start (elements s)) [0..<Suc pivotTableSize]" and
    len: "length (hashtable s') = length (elements s)" and
    table: "\<forall>j < length (elements s). hashtable s' ! slot (elements s) j = j"
    by blast
  let ?els = "elements s" and ?t = "hashtable s'"
  have nth: "pivots s' ! b = bucket_start ?els b" if "b \<le> pivotTableSize" for b
    using that unfolding pv by (simp add: nth_append del: upt_Suc)
  have "sorted (pivots s')" unfolding pv by (rule sorted_bucket_starts)
  moreover have "pivots s' ! 0 = 0" by (simp add: nth bucket_start_0)
  moreover have "last (pivots s') = length ?els"
    unfolding pv by (simp add: bucket_start_all)
  moreover have "\<exists>!i. i < length ?t \<and> ?t ! i = j" if j: "j < length ?els" for j
  proof (rule ex1I[of _ "slot ?els j"])
    show "slot ?els j < length ?t \<and> ?t ! slot ?els j = j"
      using j table slot_less[OF j] by (simp add: len)
  next
    fix i assume i: "i < length ?t \<and> ?t ! i = j"
    then have "i < length ?els" by (simp add: len)
    from slot_onto[OF table this] obtain j' where "j' < length ?els" "slot ?els j' = i"
      by blast
    then show "i = slot ?els j" using table i by auto
  qed
  moreover have "(pivots s' ! b \<le> i \<and> i < pivots s' ! (b + 1)) \<longleftrightarrow>
        b = bucket_of (position (?els ! (?t ! i)))"
    if i: "i < length ?t" and b: "b < pivotTableSize" for i b
  proof
    assume "pivots s' ! b \<le> i \<and> i < pivots s' ! (b + 1)"
    then have "bucket_start ?els b \<le> i" "i < bucket_start ?els (Suc b)"
      using b by (simp_all add: nth)
    from table_bucket(3)[OF table this] show "b = bucket_of (position (?els ! (?t ! i)))"
      by simp
  next
    assume eq: "b = bucket_of (position (?els ! (?t ! i)))"
    have "i < length ?els" using i by (simp add: len)
    from slot_onto[OF table this] obtain j where j: "j < length ?els" "slot ?els j = i"
      by blast
    then have "?t ! i = j" using table by auto
    then show "pivots s' ! b \<le> i \<and> i < pivots s' ! (b + 1)"
      using slot_range[OF j(1)] j(2) b eq by (simp add: nth)
  qed
  ultimately show ?thesis
    using upd els len by (auto simp: pv simp del: upt_Suc)
qed

text \<open>Three bodies in two buckets: the invariant at a concrete state, for the element
  number 1.\<close>

theorem update_pivots_partition_hashtable_witness:
  "\<exists>s'. SpatialHashing_update [2, 0, 1] (exampleHash [exA, exB, exC]) = Inr s' \<and>
     sorted (pivots s') \<and> pivots s' ! 0 = 0 \<and> last (pivots s') = 3 \<and>
     (\<exists>!i. i < length (hashtable s') \<and> hashtable s' ! i = 1)"
proof -
  from update_pivots_partition_hashtable[of "[2, 0, 1]" "exampleHash [exA, exB, exC]"]
  obtain s' where s': "SpatialHashing_update [2, 0, 1] (exampleHash [exA, exB, exC]) = Inr s'"
    "elements s' = elements (exampleHash [exA, exB, exC])"
    "sorted (pivots s')" "pivots s' ! 0 = 0" "last (pivots s') = length (elements s')"
    "\<forall>j < length (elements s'). \<exists>!i. i < length (hashtable s') \<and> hashtable s' ! i = j"
    by blast
  have "length (elements s') = 3" by (simp add: s'(2) elements_exampleHash)
  then show ?thesis using s' by auto
qed

text \<open>
  C7. Whatever the shuffles draw, \<open>update\<close> repeated on unchanged elements yields the same
  buckets, entry by entry; so does \<open>update\<close> after \<open>clear\<close> and the reinsertion of the same
  elements in the same order; and after the reinsertion of the same set of elements in
  any order every bucket has the same set of members. The shuffle is stored and never
  read, so it changes no bucket at all.
\<close>

theorem update_membership_idempotent:
  "\<exists>s1. SpatialHashing_update shuffled1 s = Inr s1 \<and>
     (\<exists>s2. SpatialHashing_update shuffled2 s1 = Inr s2 \<and> (\<forall>b. bucket s2 b = bucket s1 b)) \<and>
     (\<exists>s3. SpatialHashing_update shuffled3
              (fold SpatialHashing_insert P (SpatialHashing_clear s1)) = Inr s3 \<and>
        (P = elements s \<longrightarrow> (\<forall>b. bucket s3 b = bucket s1 b)) \<and>
        (set P = set (elements s) \<longrightarrow>
           (\<forall>b < pivotTableSize. set (bucket s3 b) = set (bucket s1 b))))"
proof -
  from update_Inr[of shuffled1 s] obtain s1 where
    s1: "SpatialHashing_update shuffled1 s = Inr s1" and e1: "elements s1 = elements s"
    by blast
  from update_Inr[of shuffled2 s1] obtain s2 where
    s2: "SpatialHashing_update shuffled2 s1 = Inr s2"
    by blast
  let ?re = "fold SpatialHashing_insert P (SpatialHashing_clear s1)"
  from update_Inr[of shuffled3 ?re] obtain s3 where
    s3: "SpatialHashing_update shuffled3 ?re = Inr s3"
    by blast
  have re: "elements ?re = P"
    by (simp add: elements_inserts SpatialHashing_clear_def)
  have "bucket s2 b = bucket s1 b" for b
    using same_elements_same_index[OF e1 s2 s1] by (simp add: bucket_def)
  moreover have "bucket s3 b = bucket s1 b" if "P = elements s" for b
  proof -
    have "elements ?re = elements s" using re that by simp
    from same_elements_same_index[OF this s3 s1] show ?thesis by (simp add: bucket_def)
  qed
  moreover have "set (bucket s3 b) = set (bucket s1 b)"
    if "set P = set (elements s)" "b < pivotTableSize" for b
    using bucket_after_update[OF s3 that(2)] bucket_after_update[OF s1 that(2)] that(1)
    by (simp add: re)
  ultimately show ?thesis using s1 s2 s3 by blast
qed

text \<open>The same three bodies reinserted in another order: bucket 330 has the same
  members.\<close>

theorem update_membership_idempotent_witness:
  "\<exists>s1 s3. SpatialHashing_update [2, 0, 1] (exampleHash [exA, exB, exC]) = Inr s1 \<and>
     SpatialHashing_update [0, 2, 1]
       (fold SpatialHashing_insert [exC, exA, exB] (SpatialHashing_clear s1)) = Inr s3 \<and>
     set (bucket s3 330) = set (bucket s1 330)"
proof -
  have "set [exC, exA, exB] = set (elements (exampleHash [exA, exB, exC]))"
    by (auto simp: elements_exampleHash)
  moreover have "(330::nat) < pivotTableSize" by (simp add: pivotTableSize_def)
  ultimately show ?thesis
    using update_membership_idempotent[of "[2, 0, 1]" "exampleHash [exA, exB, exC]" "[1, 0, 2]"
        "[0, 2, 1]" "[exC, exA, exB]"]
    by blast
qed

text \<open>
  C5 (as the code has it). \<open>Collection::query\<close> returns the first \<open>m\<close> elements that
  satisfy the predicate, all of them when fewer than \<open>m\<close> do; elements that fail the
  predicate do not use up the cap. \<open>SpatialHashing::query\<close> after \<open>update\<close> considers the
  one bucket of the given position, whose entries are the elements hashing to it: it
  returns normally, only entries of that bucket that satisfy the predicate, never more
  than \<open>m\<close> of them, and all matching entries of the bucket in bucket order when the
  bucket has at most \<open>m\<close> entries.
\<close>

theorem query_cap_by_backend:
  "Collection_query c pred m = take m (filter pred (elements c)) \<and>
   (\<exists>s'. SpatialHashing_update shuffled s = Inr s' \<and>
      bucket s' (bucket_of (position el)) =
        filter (\<lambda>e. bucket_of (position e) = bucket_of (position el)) (elements s) \<and>
      (\<exists>res. SpatialHashing_query s' el pred m = Inr res \<and>
         set res \<subseteq> {e \<in> set (bucket s' (bucket_of (position el))). pred e} \<and>
         length res \<le> m \<and>
         (length (bucket s' (bucket_of (position el))) \<le> m \<longrightarrow>
            res = filter pred (bucket s' (bucket_of (position el))))))"
proof -
  have col: "Collection_query c pred m = take m (filter pred (elements c))"
    by (simp add: Collection_query_def Collection_query_loop_eq)
  from update_Inr[of shuffled s] obtain s' where
    s': "SpatialHashing_update shuffled s = Inr s'"
    by blast
  let ?b = "bucket_of (position el)"
  have bk: "bucket s' ?b = filter (\<lambda>e. bucket_of (position e) = ?b) (elements s)"
    using bucket_after_update[OF s' bucket_of_less] .
  have q: "SpatialHashing_query s' el pred m = Inr (filter pred (take m (bucket s' ?b)))"
    using query_after_update[OF s', of "[]" el pred m] by (simp add: bk)
  have "set (filter pred (take m (bucket s' ?b))) \<subseteq> {e \<in> set (bucket s' ?b). pred e}"
    by (auto dest: in_set_takeD)
  moreover have "length (filter pred (take m (bucket s' ?b))) \<le> m"
    by (rule order_trans[OF length_filter_le]) simp
  ultimately show ?thesis using col s' bk q by auto
qed

text \<open>A bucket of three entries and a cap of five: the query returns the two entries
  within the radius.\<close>

theorem query_cap_by_backend_witness:
  "\<exists>s'. SpatialHashing_update [1, 2, 0] (exampleHash [exA, exD, exB]) = Inr s' \<and>
     SpatialHashing_query s' exA (Distance (position exA) 10) 5 = Inr [exA, exD]"
proof -
  from query_cap_by_backend[of undefined "Distance (position exA) 10" 5 "[1, 2, 0]"
      "exampleHash [exA, exD, exB]" exA]
  obtain s' res where
    s': "SpatialHashing_update [1, 2, 0] (exampleHash [exA, exD, exB]) = Inr s'" and
    bk: "bucket s' (bucket_of (position exA)) =
           filter (\<lambda>e. bucket_of (position e) = bucket_of (position exA))
             (elements (exampleHash [exA, exD, exB]))" and
    res: "SpatialHashing_query s' exA (Distance (position exA) 10) 5 = Inr res" and
    full: "length (bucket s' (bucket_of (position exA))) \<le> 5 \<longrightarrow>
           res = filter (Distance (position exA) 10) (bucket s' (bucket_of (position exA)))"
    by blast
  have "bucket s' (bucket_of (position exA)) = [exA, exD, exB]"
    using bk by (simp add: elements_exampleHash example_buckets)
  then have "res = [exA, exD]" using full by (simp add: example_near)
  then show ?thesis using s' res by blast
qed

text \<open>
  C5 as stated fails for \<open>SpatialHashing::query\<close>. With two bodies in different buckets
  and a cap of 10, the query from the first returns only the first although both satisfy
  the predicate. With two bodies in one bucket, a predicate that only the second
  satisfies and a cap of 1, the query returns nothing although one element matches: the
  first entry, which fails the predicate, has used up the cap.
\<close>

theorem query_misses_other_buckets_and_counts_failures:
  "SpatialHashing_query (projr (SpatialHashing_update [0, 1] (exampleHash [exA, exC])))
     exA PassThrough 10 = Inr [exA] \<and>
   filter PassThrough (elements (exampleHash [exA, exC])) = [exA, exC] \<and>
   SpatialHashing_query (projr (SpatialHashing_update [0, 1] (exampleHash [exA, exD])))
     exA (Distance (position exD) 1) 1 = Inr [] \<and>
   filter (Distance (position exD) 1) (elements (exampleHash [exA, exD])) = [exD]"
  using query_after_update[OF update_projr[of "[0, 1]" "exampleHash [exA, exC]"],
      where ds = "[]" and el = exA and pred = PassThrough and m = 10]
    query_after_update[OF update_projr[of "[0, 1]" "exampleHash [exA, exD]"],
      where ds = "[]" and el = exA and pred = "Distance (position exD) 1" and m = 1]
  by (simp add: elements_exampleHash example_buckets example_near PassThrough_def)




text \<open>
  C10 (as the code has it). After \<open>update\<close>, \<open>query\<close> stays within \<open>pivots\<close>, \<open>hashtable\<close>
  and \<open>elements\<close>, also after any number of further \<open>insert\<close> calls without a new
  \<open>update\<close>. After \<open>clear\<close> without a new \<open>update\<close> it reads \<open>elements\<close> out of range
  exactly when the cap is positive and the bucket of the query position was not empty
  at the last \<open>update\<close>, and returns the empty result otherwise. Before the first
  \<open>update\<close>, \<open>pivots\<close> is empty and the first read of the query is out of range.
\<close>

theorem query_in_range_after_update:
  "(\<exists>s'. SpatialHashing_update shuffled s = Inr s' \<and>
      (\<forall>ds. \<exists>res. SpatialHashing_query (fold SpatialHashing_insert ds s') el pred m = Inr res) \<and>
      SpatialHashing_query (SpatialHashing_clear s') el pred m =
        (if 0 < m \<and> (\<exists>e \<in> set (elements s). bucket_of (position e) = bucket_of (position el))
         then Inl ArrayIndexOutOfRange else Inr [])) \<and>
   SpatialHashing_query (fold SpatialHashing_insert ds0 (new_SpatialHashing w h)) el pred m =
     Inl ArrayIndexOutOfRange"
proof -
  from update_Inr[of shuffled s] obtain s' where
    s': "SpatialHashing_update shuffled s = Inr s'"
    by blast
  have ins: "\<forall>ds. \<exists>res. SpatialHashing_query (fold SpatialHashing_insert ds s') el pred m = Inr res"
    using query_after_update[OF s'] by simp
  have "pivots (fold SpatialHashing_insert ds0 (new_SpatialHashing w h)) = []"
    by (simp add: pivots_inserts new_SpatialHashing_def)
  then have before: "SpatialHashing_query (fold SpatialHashing_insert ds0 (new_SpatialHashing w h))
      el pred m = Inl ArrayIndexOutOfRange"
    by (rule query_before_update)
  show ?thesis
    using s' ins query_after_clear[OF s', of el pred m] before
    by (intro conjI exI[of _ s']) simp_all
qed

text \<open>One body, \<open>update\<close>, then either a further \<open>insert\<close> or a \<open>clear\<close>.\<close>

theorem query_in_range_after_update_witness:
  "\<exists>s'. SpatialHashing_update [0] (exampleHash [exA]) = Inr s' \<and>
     (\<exists>res. SpatialHashing_query (fold SpatialHashing_insert [exD] s') exA PassThrough max_size =
            Inr res) \<and>
     SpatialHashing_query (SpatialHashing_clear s') exA PassThrough max_size =
       Inl ArrayIndexOutOfRange"
proof -
  have hit: "0 < max_size \<and>
     (\<exists>e \<in> set (elements (exampleHash [exA])). bucket_of (position e) = bucket_of (position exA))"
    by (simp add: max_size_def elements_exampleHash)
  from query_in_range_after_update[of "[0]" "exampleHash [exA]" exA PassThrough max_size
        "[]" 1000 1000]
  obtain s' where s': "SpatialHashing_update [0] (exampleHash [exA]) = Inr s'" and
    ins: "\<forall>ds. \<exists>res. SpatialHashing_query (fold SpatialHashing_insert ds s') exA PassThrough
                      max_size = Inr res" and
    clr: "SpatialHashing_query (SpatialHashing_clear s') exA PassThrough max_size =
       (if 0 < max_size \<and>
           (\<exists>e \<in> set (elements (exampleHash [exA])).
               bucket_of (position e) = bucket_of (position exA))
        then Inl ArrayIndexOutOfRange else Inr [])"
    by blast
  have "SpatialHashing_query (SpatialHashing_clear s') exA PassThrough max_size =
       Inl ArrayIndexOutOfRange"
    unfolding clr using hit by (rule if_P)
  moreover have "\<exists>res. SpatialHashing_query (fold SpatialHashing_insert [exD] s') exA PassThrough
                      max_size = Inr res"
    using ins by (rule spec)
  ultimately show ?thesis using s' by blast
qed

text \<open>
  C10 as stated fails: after \<open>update\<close> and a further \<open>insert\<close> without a new \<open>update\<close> the
  query returns normally (it reports the old element and misses the new one), and after
  \<open>clear\<close> without a new \<open>update\<close> a query into a bucket that was empty returns the
  empty result.
\<close>

theorem query_in_range_without_new_update:
  "SpatialHashing_query
     (SpatialHashing_insert exD (projr (SpatialHashing_update [0] (exampleHash [exA]))))
     exA PassThrough max_size = Inr [exA] \<and>
   SpatialHashing_query
     (SpatialHashing_clear (projr (SpatialHashing_update [0] (exampleHash [exA]))))
     exC PassThrough max_size = Inr []"
  using query_after_update[OF update_projr[of "[0]" "exampleHash [exA]"],
      where ds = "[exD]" and el = exA and pred = PassThrough and m = max_size]
    query_after_clear[OF update_projr[of "[0]" "exampleHash [exA]"],
      where el = exC and pred = PassThrough and m = max_size]
  by (simp add: elements_exampleHash example_buckets PassThrough_def max_size_def)

text \<open>
  C8 (the code of the tree). \<open>RTree::bounds\<close> returns the box \<open>(0, 0, 0, 0)\<close> whatever the
  tree holds, and \<open>RTree::insert\<close> updates no bounds: after the insertion of a body at
  \<open>(500, 500)\<close> the bounds are still the empty box at the origin, while the exact bounding
  box of the inserted points is the box \<open>(500, 500, 0, 0)\<close>.
\<close>

theorem RTree_bounds_ignores_elements:
  "RTree_bounds (RTree_insert (new_Body (500, 500)) new_RTree) = Box 0 0 0 0 \<and>
   bounding_box (map position (RTree_insert (new_Body (500, 500)) new_RTree)) =
     Box 500 500 0 0"
  by (simp add: RTree_bounds_def RTree_insert_def new_RTree_def bounding_box_def new_Body_def)


end
